theory Spec2Isabelle
  imports Main "HOL-Library.Monad_Syntax"
begin

section \<open>Gomoku: the game core of \<open>GomokuGame\<close>\<close>

text \<open>
  The model follows the class \<open>GomokuGame\<close>. Rendering, pointer translation and
  DOM text are left out; everything that reads or writes the board, the move
  history, the current player, the game-over flag, the mode, the local storage
  or schedules the computer's reply is kept.

  Every operation that reads or writes the board returns an \<open>option\<close>. The value
  \<open>None\<close> stands for every run the model does not follow: an index outside the
  arrays (where JavaScript throws a \<open>TypeError\<close> for a missing row, yields
  \<open>undefined\<close> for a missing column or grows the row on a write) and a loop that
  does not end. The theorems show that on a 15 by 15 board none of this happens.
\<close>

subsection \<open>Data\<close>

abbreviation BOARD_SIZE :: int where
  "BOARD_SIZE \<equiv> 15"

datatype Player = NONE | BLACK | WHITE

datatype GameMode = PVP | PVE

type_synonym Board = "Player list list"

record Move =
  row :: int
  col :: int
  player :: Player
  timestamp :: int
  moveNumber :: int

text \<open>\<open>createEmptyBoard\<close>: 15 rows of 15 empty cells.\<close>

definition createEmptyBoard :: Board where
  "createEmptyBoard = replicate (nat BOARD_SIZE) (replicate (nat BOARD_SIZE) NONE)"

text \<open>The read \<open>this.board[r][c]\<close> and the write \<open>this.board[r][c] = v\<close>.\<close>

definition cellAt :: "Board \<Rightarrow> int \<Rightarrow> int \<Rightarrow> Player option" where
  "cellAt b r c =
     (if 0 \<le> r \<and> r < int (length b) \<and> 0 \<le> c \<and> c < int (length (b ! nat r))
      then Some (b ! nat r ! nat c) else None)"

definition setCell :: "Board \<Rightarrow> int \<Rightarrow> int \<Rightarrow> Player \<Rightarrow> Board option" where
  "setCell b r c v =
     (if 0 \<le> r \<and> r < int (length b) \<and> 0 \<le> c \<and> c < int (length (b ! nat r))
      then Some (b[nat r := (b ! nat r)[nat c := v]]) else None)"

text \<open>The shape every board of the game has.\<close>

definition wf_board :: "Board \<Rightarrow> bool" where
  "wf_board b \<longleftrightarrow> length b = nat BOARD_SIZE \<and> list_all (\<lambda>r. length r = nat BOARD_SIZE) b"

definition in_bounds :: "int \<Rightarrow> int \<Rightarrow> bool" where
  "in_bounds r c \<longleftrightarrow> 0 \<le> r \<and> r < BOARD_SIZE \<and> 0 \<le> c \<and> c < BOARD_SIZE"

text \<open>
  The nested loops \<open>for row < BOARD_SIZE, for col < BOARD_SIZE\<close> visit the cells in
  this order.
\<close>

definition cells :: "(int \<times> int) list" where
  "cells = concat (map (\<lambda>r. map (\<lambda>c. (int r, int c)) [0..<nat BOARD_SIZE]) [0..<nat BOARD_SIZE])"

subsection \<open>Win detection\<close>

text \<open>
  \<open>countDirection\<close>: the \<open>while\<close> loop, started one step away from \<open>(row, col)\<close>.
  With \<open>dx = dy = 0\<close> on a matching cell the loop of the source never ends, so it
  is a partial function.
\<close>

partial_function (option) countDirection_loop ::
  "Board \<Rightarrow> int \<Rightarrow> int \<Rightarrow> Player \<Rightarrow> nat \<Rightarrow> int \<Rightarrow> int \<Rightarrow> nat option" where
  "countDirection_loop b dx dy p count currentRow currentCol =
     (if currentRow \<ge> 0 \<and> currentRow < BOARD_SIZE \<and> currentCol \<ge> 0 \<and> currentCol < BOARD_SIZE
      then do {
        v \<leftarrow> cellAt b currentRow currentCol;
        if v = p
        then countDirection_loop b dx dy p (count + 1) (currentRow + dx) (currentCol + dy)
        else Some count }
      else Some count)"

declare countDirection_loop.simps [code]

definition countDirection :: "Board \<Rightarrow> int \<Rightarrow> int \<Rightarrow> int \<Rightarrow> int \<Rightarrow> Player \<Rightarrow> nat option" where
  "countDirection b r c dx dy p = countDirection_loop b dx dy p 0 (r + dx) (c + dy)"

definition directions :: "(int \<times> int) list" where
  "directions = [(0, 1), (1, 0), (1, 1), (1, -1)]"

text \<open>\<open>checkWin\<close>: the loop over the four directions, returning at the first line of five.\<close>

fun checkWin_dirs :: "Board \<Rightarrow> int \<Rightarrow> int \<Rightarrow> Player \<Rightarrow> (int \<times> int) list \<Rightarrow> bool option" where
  "checkWin_dirs b r c p [] = Some False"
| "checkWin_dirs b r c p ((dx, dy) # ds) = do {
     forward \<leftarrow> countDirection b r c dx dy p;
     backward \<leftarrow> countDirection b r c (- dx) (- dy) p;
     if 1 + forward + backward \<ge> 5 then Some True else checkWin_dirs b r c p ds }"

definition checkWin :: "Board \<Rightarrow> int \<Rightarrow> int \<Rightarrow> bool option" where
  "checkWin b r c = do { p \<leftarrow> cellAt b r c; checkWin_dirs b r c p directions }"

text \<open>\<open>isBoardFull\<close>: the scan returns at the first empty cell.\<close>

fun isBoardFull_scan :: "Board \<Rightarrow> (int \<times> int) list \<Rightarrow> bool option" where
  "isBoardFull_scan b [] = Some True"
| "isBoardFull_scan b ((r, c) # cs) = do {
     v \<leftarrow> cellAt b r c;
     if v = NONE then Some False else isBoardFull_scan b cs }"

definition isBoardFull :: "Board \<Rightarrow> bool option" where
  "isBoardFull b = isBoardFull_scan b cells"

subsection \<open>The computer's move\<close>

definition opponent_of :: "Player \<Rightarrow> Player" where
  "opponent_of p = (if p = BLACK then WHITE else BLACK)"

text \<open>\<open>evaluatePosition\<close>: the loop over the four directions adds to \<open>score\<close>.\<close>

fun evaluatePosition_dirs ::
  "Board \<Rightarrow> int \<Rightarrow> int \<Rightarrow> Player \<Rightarrow> Player \<Rightarrow> int \<Rightarrow> (int \<times> int) list \<Rightarrow> int option" where
  "evaluatePosition_dirs b r c p opp score [] = Some score"
| "evaluatePosition_dirs b r c p opp score ((dx, dy) # ds) = do {
     my1 \<leftarrow> countDirection b r c dx dy p;
     my2 \<leftarrow> countDirection b r c (- dx) (- dy) p;
     opp1 \<leftarrow> countDirection b r c dx dy opp;
     opp2 \<leftarrow> countDirection b r c (- dx) (- dy) opp;
     let myCount = my1 + my2;
     let opponentCount = opp1 + opp2;
     let score1 =
       (if myCount \<ge> 4 then score + 100000
        else if myCount = 3 then score + 10000
        else if myCount = 2 then score + 1000
        else if myCount = 1 then score + 100
        else score);
     let score2 =
       (if opponentCount \<ge> 4 then score1 + 50000
        else if opponentCount = 3 then score1 + 5000
        else if opponentCount = 2 then score1 + 500
        else score1);
     evaluatePosition_dirs b r c p opp score2 ds }"

definition evaluatePosition :: "Board \<Rightarrow> int \<Rightarrow> int \<Rightarrow> Player \<Rightarrow> int option" where
  "evaluatePosition b r c p = do {
     score \<leftarrow> evaluatePosition_dirs b r c p (opponent_of p) 0 directions;
     let centerDistance = \<bar>r - 7\<bar> + \<bar>c - 7\<bar>;
     Some (score + (14 - centerDistance) * 10) }"

text \<open>
  The first two scans of \<open>getAIMove\<close> are the same loop for \<open>WHITE\<close> and for
  \<open>BLACK\<close>: the piece is written to the board, \<open>checkWin\<close> is asked, and the cell is
  written back to \<open>NONE\<close> on both branches. The board is threaded through and
  returned, so that what the scan leaves behind is part of the result.
\<close>

fun findWinningCell ::
  "Board \<Rightarrow> Player \<Rightarrow> (int \<times> int) list \<Rightarrow> ((int \<times> int) option \<times> Board) option" where
  "findWinningCell b side [] = Some (None, b)"
| "findWinningCell b side ((r, c) # cs) = do {
     v \<leftarrow> cellAt b r c;
     if v = NONE then do {
       b1 \<leftarrow> setCell b r c side;
       w \<leftarrow> checkWin b1 r c;
       if w then do {
         b2 \<leftarrow> setCell b1 r c NONE;
         Some (Some (r, c), b2) }
       else do {
         b2 \<leftarrow> setCell b1 r c NONE;
         findWinningCell b2 side cs } }
     else findWinningCell b side cs }"

text \<open>The third scan keeps \<open>bestScore\<close> and \<open>bestMove\<close>.\<close>

fun bestCell ::
  "Board \<Rightarrow> int \<Rightarrow> (int \<times> int) option \<Rightarrow> (int \<times> int) list \<Rightarrow> (int \<times> int) option option" where
  "bestCell b bestScore bestMove [] = Some bestMove"
| "bestCell b bestScore bestMove ((r, c) # cs) = do {
     v \<leftarrow> cellAt b r c;
     if v = NONE then do {
       score \<leftarrow> evaluatePosition b r c WHITE;
       if score > bestScore then bestCell b score (Some (r, c)) cs
       else bestCell b bestScore bestMove cs }
     else bestCell b bestScore bestMove cs }"

definition getAIMove :: "Board \<Rightarrow> ((int \<times> int) option \<times> Board) option" where
  "getAIMove b = do {
     (m1, b1) \<leftarrow> findWinningCell b WHITE cells;
     case m1 of
       Some mv \<Rightarrow> Some (Some mv, b1)
     | None \<Rightarrow> do {
         (m2, b2) \<leftarrow> findWinningCell b1 BLACK cells;
         case m2 of
           Some mv \<Rightarrow> Some (Some mv, b2)
         | None \<Rightarrow> do {
             m3 \<leftarrow> bestCell b2 (- 1) None cells;
             Some (m3, b2) } } }"

subsection \<open>JavaScript values and the stored snapshot\<close>

text \<open>
  What \<open>JSON.parse\<close> can return, and \<open>undefined\<close>. Numbers are the integers the game
  stores. \<open>JSON.stringify\<close> and \<open>JSON.parse\<close> belong to the platform: the operations
  take them as parameters.
\<close>

datatype jsval =
  JUndefined | JNull | JBool bool | JNum int | JStr string
  | JArr "jsval list" | JObj "(string \<times> jsval) list"

datatype error = SyntaxError | TypeError

type_synonym stringify = "jsval \<Rightarrow> string"
type_synonym parse = "string \<Rightarrow> error + jsval"

definition js_of_Player :: "Player \<Rightarrow> jsval" where
  "js_of_Player p = JNum (case p of NONE \<Rightarrow> 0 | BLACK \<Rightarrow> 1 | WHITE \<Rightarrow> 2)"

definition js_of_GameMode :: "GameMode \<Rightarrow> jsval" where
  "js_of_GameMode m = JStr (case m of PVP \<Rightarrow> ''pvp'' | PVE \<Rightarrow> ''pve'')"

definition js_of_Board :: "Board \<Rightarrow> jsval" where
  "js_of_Board b = JArr (map (\<lambda>r. JArr (map js_of_Player r)) b)"

definition js_of_Move :: "Move \<Rightarrow> jsval" where
  "js_of_Move m = JObj [(''row'', JNum (row m)), (''col'', JNum (col m)),
     (''player'', js_of_Player (player m)), (''timestamp'', JNum (timestamp m)),
     (''moveNumber'', JNum (moveNumber m))]"

definition js_of_History :: "Move list \<Rightarrow> jsval" where
  "js_of_History h = JArr (map js_of_Move h)"

subsection \<open>The game state\<close>

text \<open>
  The fields of the class that the game logic uses, the local-storage item
  \<open>gomoku-game-state\<close>, and the number of \<open>aiMove\<close> callbacks that \<open>setTimeout\<close> has
  scheduled and that have not run yet.
\<close>

record Game =
  board :: Board
  currentPlayer :: Player
  gameOver :: bool
  moveHistory :: "Move list"
  moveCount :: int
  gameMode :: GameMode
  storage :: "string option"
  pendingAI :: nat

text \<open>The constructor, when nothing is stored.\<close>

definition initial :: Game where
  "initial = \<lparr> board = createEmptyBoard, currentPlayer = BLACK, gameOver = False,
     moveHistory = [], moveCount = 0, gameMode = PVP, storage = None, pendingAI = 0 \<rparr>"

text \<open>The object literal \<open>gameState\<close> of \<open>saveGame\<close>.\<close>

definition gameState_of :: "Game \<Rightarrow> jsval" where
  "gameState_of g = JObj [(''board'', js_of_Board (board g)),
     (''currentPlayer'', js_of_Player (currentPlayer g)),
     (''gameOver'', JBool (gameOver g)),
     (''moveHistory'', js_of_History (moveHistory g)),
     (''gameMode'', js_of_GameMode (gameMode g))]"

definition saveGame :: "stringify \<Rightarrow> Game \<Rightarrow> Game" where
  "saveGame J g = (if gameOver g then g else g\<lparr>storage := Some (J (gameState_of g))\<rparr>)"

definition switchPlayer :: "Game \<Rightarrow> Game" where
  "switchPlayer g = g\<lparr>currentPlayer := (if currentPlayer g = BLACK then WHITE else BLACK)\<rparr>"

text \<open>\<open>endGame\<close>: the winner only chooses the message shown.\<close>

definition endGame :: "Player \<Rightarrow> Game \<Rightarrow> Game" where
  "endGame winner g = g\<lparr>gameOver := True, storage := None\<rparr>"

text \<open>\<open>placePiece\<close>; \<open>now\<close> is what \<open>Date.now()\<close> returns.\<close>

definition placePiece :: "stringify \<Rightarrow> int \<Rightarrow> int \<Rightarrow> int \<Rightarrow> Game \<Rightarrow> Game option" where
  "placePiece J now r c g = do {
     b \<leftarrow> setCell (board g) r c (currentPlayer g);
     let g1 = g\<lparr>board := b, moveCount := moveCount g + 1\<rparr>;
     let move = \<lparr> row = r, col = c, player = currentPlayer g1, timestamp = now,
                  moveNumber = moveCount g1 \<rparr>;
     let g2 = g1\<lparr>moveHistory := moveHistory g1 @ [move]\<rparr>;
     let g3 = saveGame J g2;
     won \<leftarrow> checkWin (board g3) r c;
     if won then Some (endGame (currentPlayer g3) g3)
     else do {
       full \<leftarrow> isBoardFull (board g3);
       if full then Some (endGame NONE g3)
       else do {
         let g4 = switchPlayer g3;
         if gameMode g4 = PVE \<and> currentPlayer g4 = WHITE
         then Some (g4\<lparr>pendingAI := pendingAI g4 + 1\<rparr>)
         else Some g4 } } }"

text \<open>\<open>handleClick\<close>, from the board coordinates that \<open>getPositionFromEvent\<close> returns.\<close>

definition handleClick :: "stringify \<Rightarrow> int \<Rightarrow> int \<Rightarrow> int \<Rightarrow> Game \<Rightarrow> Game option" where
  "handleClick J now r c g =
     (if gameOver g then Some g
      else if gameMode g = PVE \<and> currentPlayer g = WHITE then Some g
      else if r < 0 \<or> r \<ge> BOARD_SIZE \<or> c < 0 \<or> c \<ge> BOARD_SIZE then Some g
      else do {
        v \<leftarrow> cellAt (board g) r c;
        if v \<noteq> NONE then Some g else placePiece J now r c g })"

text \<open>\<open>aiMove\<close>, the callback of the timer.\<close>

definition aiMove :: "stringify \<Rightarrow> int \<Rightarrow> Game \<Rightarrow> Game option" where
  "aiMove J now g =
     (if gameOver g then Some g
      else do {
        (mv, b) \<leftarrow> getAIMove (board g);
        let g1 = g\<lparr>board := b\<rparr>;
        case mv of
          None \<Rightarrow> Some g1
        | Some (r, c) \<Rightarrow> placePiece J now r c g1 })"

text \<open>\<open>undo\<close>: the loop pops \<open>stepsToUndo\<close> moves, fewer if the history runs out.\<close>

fun undo_loop :: "nat \<Rightarrow> Game \<Rightarrow> Game option" where
  "undo_loop 0 g = Some g"
| "undo_loop (Suc n) g =
     (if moveHistory g = [] then Some g
      else do {
        let lastMove = last (moveHistory g);
        let g1 = g\<lparr>moveHistory := butlast (moveHistory g)\<rparr>;
        b \<leftarrow> setCell (board g1) (row lastMove) (col lastMove) NONE;
        undo_loop n (g1\<lparr>board := b, moveCount := moveCount g1 - 1\<rparr>) })"

definition undo :: "stringify \<Rightarrow> Game \<Rightarrow> Game option" where
  "undo J g =
     (if gameOver g \<or> moveHistory g = [] then Some g
      else do {
        let stepsToUndo = (if gameMode g = PVE \<and> length (moveHistory g) \<ge> 2 then 2 else 1);
        g1 \<leftarrow> undo_loop stepsToUndo g;
        let g2 =
          (if moveHistory g1 \<noteq> []
           then g1\<lparr>currentPlayer :=
                  (if player (last (moveHistory g1)) = BLACK then WHITE else BLACK)\<rparr>
           else g1\<lparr>currentPlayer := BLACK\<rparr>);
        Some (saveGame J g2) })"

definition reset :: "Game \<Rightarrow> Game" where
  "reset g = g\<lparr>board := createEmptyBoard, currentPlayer := BLACK, gameOver := False,
     moveHistory := [], moveCount := 0, storage := None\<rparr>"

definition toggleMode :: "Game \<Rightarrow> Game" where
  "toggleMode g = reset (g\<lparr>gameMode := (if gameMode g = PVP then PVE else PVP)\<rparr>)"

text \<open>
  The states the game reaches in one session that starts fresh, with nothing
  stored. A click arrives with any coordinates and any clock value; the timer
  callback runs only when one is pending. Reloading the page starts another
  session from the stored snapshot: that is the constructor's \<open>loadGame\<close>, which
  is treated with saving and loading and is not a step here.
\<close>

inductive reachable :: "stringify \<Rightarrow> Game \<Rightarrow> bool" for J :: stringify where
  start: "reachable J initial"
| click: "reachable J g \<Longrightarrow> handleClick J now r c g = Some g' \<Longrightarrow> reachable J g'"
| timer: "reachable J g \<Longrightarrow> pendingAI g > 0 \<Longrightarrow>
          aiMove J now (g\<lparr>pendingAI := pendingAI g - 1\<rparr>) = Some g' \<Longrightarrow> reachable J g'"
| undone: "reachable J g \<Longrightarrow> undo J g = Some g' \<Longrightarrow> reachable J g'"
| reset: "reachable J g \<Longrightarrow> reachable J (reset g)"
| toggled: "reachable J g \<Longrightarrow> reachable J (toggleMode g)"

subsection \<open>Loading the stored snapshot\<close>

text \<open>
  TypeScript's types are gone at run time: \<open>loadGame\<close> assigns to the fields
  whatever \<open>JSON.parse\<close> returned. So it is modelled on the fields as JavaScript
  values; \<open>raw_of_Game\<close> is the typed state seen that way.
\<close>

record RawGame =
  rawBoard :: jsval
  rawCurrentPlayer :: jsval
  rawGameOver :: jsval
  rawMoveHistory :: jsval
  rawMoveCount :: jsval
  rawGameMode :: jsval
  rawStorage :: "string option"

definition raw_of_Game :: "Game \<Rightarrow> RawGame" where
  "raw_of_Game g = \<lparr> rawBoard = js_of_Board (board g),
     rawCurrentPlayer = js_of_Player (currentPlayer g),
     rawGameOver = JBool (gameOver g),
     rawMoveHistory = js_of_History (moveHistory g),
     rawMoveCount = JNum (moveCount g),
     rawGameMode = js_of_GameMode (gameMode g),
     rawStorage = storage g \<rparr>"

text \<open>
  Reading a property named \<open>board\<close>, \<open>currentPlayer\<close>, \<open>gameOver\<close>, \<open>moveHistory\<close> or
  \<open>gameMode\<close>: a \<open>TypeError\<close> on \<open>null\<close> and \<open>undefined\<close>, the member of an object,
  and \<open>undefined\<close> on a primitive or an array, which have no property of these
  names. Reading \<open>length\<close>: arrays and strings have one.
\<close>

fun getField :: "jsval \<Rightarrow> string \<Rightarrow> error + jsval" where
  "getField JUndefined k = Inl TypeError"
| "getField JNull k = Inl TypeError"
| "getField (JObj kvs) k = Inr (case map_of kvs k of None \<Rightarrow> JUndefined | Some v \<Rightarrow> v)"
| "getField v k = Inr JUndefined"

fun getLength :: "jsval \<Rightarrow> error + jsval" where
  "getLength JUndefined = Inl TypeError"
| "getLength JNull = Inl TypeError"
| "getLength (JArr xs) = Inr (JNum (int (length xs)))"
| "getLength (JStr s) = Inr (JNum (int (length s)))"
| "getLength (JObj kvs) = Inr (case map_of kvs ''length'' of None \<Rightarrow> JUndefined | Some v \<Rightarrow> v)"
| "getLength v = Inr JUndefined"

text \<open>
  The body of the \<open>try\<close> block: the state it has reached, and the exception if one
  was thrown. The assignments run one after the other, so a throw leaves the
  earlier ones done. The updates of the page that follow them are left out.
\<close>

definition loadGame_try :: "parse \<Rightarrow> string \<Rightarrow> RawGame \<Rightarrow> error option \<times> RawGame" where
  "loadGame_try P saved e =
     (case P saved of Inl err \<Rightarrow> (Some err, e) | Inr gameState \<Rightarrow>
     (case getField gameState ''board'' of Inl err \<Rightarrow> (Some err, e) | Inr v1 \<Rightarrow>
     (let e1 = e\<lparr>rawBoard := v1\<rparr> in
     (case getField gameState ''currentPlayer'' of Inl err \<Rightarrow> (Some err, e1) | Inr v2 \<Rightarrow>
     (let e2 = e1\<lparr>rawCurrentPlayer := v2\<rparr> in
     (case getField gameState ''gameOver'' of Inl err \<Rightarrow> (Some err, e2) | Inr v3 \<Rightarrow>
     (let e3 = e2\<lparr>rawGameOver := v3\<rparr> in
     (case getField gameState ''moveHistory'' of Inl err \<Rightarrow> (Some err, e3) | Inr v4 \<Rightarrow>
     (let e4 = e3\<lparr>rawMoveHistory := v4\<rparr> in
     (case getField gameState ''moveHistory'' of Inl err \<Rightarrow> (Some err, e4) | Inr mh \<Rightarrow>
     (case getLength mh of Inl err \<Rightarrow> (Some err, e4) | Inr n \<Rightarrow>
     (let e5 = e4\<lparr>rawMoveCount := n\<rparr> in
     (case getField gameState ''gameMode'' of Inl err \<Rightarrow> (Some err, e5) | Inr v6 \<Rightarrow>
        (None, e5\<lparr>rawGameMode := v6\<rparr>))))))))))))))"

text \<open>
  \<open>loadGame\<close>: \<open>!saved\<close> holds for a missing item and for the empty string; the
  \<open>catch\<close> block removes the item.
\<close>

definition loadGame :: "parse \<Rightarrow> RawGame \<Rightarrow> RawGame" where
  "loadGame P e =
     (case rawStorage e of
        None \<Rightarrow> e
      | Some saved \<Rightarrow>
          if saved = [] then e
          else (case loadGame_try P saved e of
                  (None, e') \<Rightarrow> e'
                | (Some err, e') \<Rightarrow> e'\<lparr>rawStorage := None\<rparr>))"

section \<open>Notions of the specification\<close>

text \<open>
  These definitions follow the words of the specification, not the code; the
  theorems compare the two.
\<close>

text \<open>The cell \<open>(r, c)\<close> is on the board and holds \<open>p\<close>.\<close>

definition holds :: "Board \<Rightarrow> Player \<Rightarrow> int \<Rightarrow> int \<Rightarrow> bool" where
  "holds b p r c \<longleftrightarrow> in_bounds r c \<and> cellAt b r c = Some p"

text \<open>
  The number of contiguous cells of \<open>p\<close> that extend from \<open>(r, c)\<close> in the direction
  \<open>(dx, dy)\<close>, the cell \<open>(r, c)\<close> itself not counted: the offsets 1, 2, 3, ... up to
  the first one whose cell is off the board or does not hold \<open>p\<close>.
\<close>

definition runLen :: "Board \<Rightarrow> Player \<Rightarrow> int \<Rightarrow> int \<Rightarrow> int \<Rightarrow> int \<Rightarrow> nat" where
  "runLen b p r c dx dy =
     length (takeWhile (\<lambda>i. holds b p (r + int i * dx) (c + int i * dy)) [1..<nat BOARD_SIZE])"

text \<open>The four axes: horizontal, vertical, diagonal and anti-diagonal.\<close>

definition axes :: "(int \<times> int) set" where
  "axes = {(0, 1), (1, 0), (1, 1), (1, -1)}"

text \<open>
  A run of at least five contiguous cells of \<open>S\<close> along one axis that passes
  through \<open>(r, c)\<close>: the cells at the offsets \<open>lo, ..., hi\<close> with \<open>lo \<le> 0 \<le> hi\<close>, all
  on the board.
\<close>

definition line_of_five :: "Board \<Rightarrow> Player \<Rightarrow> int \<Rightarrow> int \<Rightarrow> bool" where
  "line_of_five b S r c \<longleftrightarrow>
     (\<exists>(dx, dy) \<in> axes. \<exists>lo hi. lo \<le> 0 \<and> 0 \<le> hi \<and> 5 \<le> hi - lo + 1 \<and>
        (\<forall>i. lo \<le> i \<and> i \<le> hi \<longrightarrow> holds b S (r + i * dx) (c + i * dy)))"

text \<open>The bonus of one axis for the mover's own run and for the opponent's run.\<close>

definition my_bonus :: "nat \<Rightarrow> int" where
  "my_bonus n = (if n \<ge> 4 then 100000 else if n = 3 then 10000 else if n = 2 then 1000
                 else if n = 1 then 100 else 0)"

definition opp_bonus :: "nat \<Rightarrow> int" where
  "opp_bonus n = (if n \<ge> 4 then 50000 else if n = 3 then 5000 else if n = 2 then 500 else 0)"

definition other_side :: "Player \<Rightarrow> Player" where
  "other_side s = (case s of BLACK \<Rightarrow> WHITE | WHITE \<Rightarrow> BLACK | NONE \<Rightarrow> NONE)"

text \<open>The run of \<open>p\<close> through the candidate cell along one axis, both directions added.\<close>

definition both_ways :: "Board \<Rightarrow> Player \<Rightarrow> int \<Rightarrow> int \<Rightarrow> int \<Rightarrow> int \<Rightarrow> nat" where
  "both_ways b p r c dx dy = runLen b p r c dx dy + runLen b p r c (- dx) (- dy)"

definition score_spec :: "Board \<Rightarrow> int \<Rightarrow> int \<Rightarrow> Player \<Rightarrow> int" where
  "score_spec b r c side =
     (\<Sum>(dx, dy) \<in> axes. my_bonus (both_ways b side r c dx dy)
                         + opp_bonus (both_ways b (other_side side) r c dx dy))
     + (14 - \<bar>r - 7\<bar> - \<bar>c - 7\<bar>) * 10"

text \<open>
  The move selector, in the words of the specification. A cell wins for a side
  when it is empty and \<open>checkWin\<close> reports a win once the side's piece lies
  there.
\<close>

definition wins_at :: "Board \<Rightarrow> Player \<Rightarrow> int \<times> int \<Rightarrow> bool" where
  "wins_at b side rc =
     (case rc of (r, c) \<Rightarrow>
        cellAt b r c = Some NONE \<and>
        (case setCell b r c side of None \<Rightarrow> False | Some b' \<Rightarrow> checkWin b' r c = Some True))"

text \<open>The empty cells in row-major order, and the score of a cell for White.\<close>

definition empty_cells :: "Board \<Rightarrow> (int \<times> int) list" where
  "empty_cells b = filter (\<lambda>(r, c). cellAt b r c = Some NONE) cells"

definition cell_score :: "Board \<Rightarrow> int \<times> int \<Rightarrow> int" where
  "cell_score b rc = (case rc of (r, c) \<Rightarrow> score_spec b r c WHITE)"

text \<open>No empty cell has a greater score.\<close>

definition unbeaten :: "Board \<Rightarrow> int \<times> int \<Rightarrow> bool" where
  "unbeaten b rc \<longleftrightarrow> (\<forall>rc' \<in> set (empty_cells b). cell_score b rc' \<le> cell_score b rc)"

text \<open>
  The three tiers: the first cell in row-major order that wins for White;
  otherwise the first that wins for Black; otherwise the first empty cell whose
  score no empty cell exceeds.
\<close>

definition select_spec :: "Board \<Rightarrow> (int \<times> int) option" where
  "select_spec b =
     (case find (wins_at b WHITE) cells of
        Some rc \<Rightarrow> Some rc
      | None \<Rightarrow>
         (case find (wins_at b BLACK) cells of
            Some rc \<Rightarrow> Some rc
          | None \<Rightarrow> find (unbeaten b) (empty_cells b)))"

text \<open>The third scan without the board: a proof device.\<close>

fun pick :: "('a \<Rightarrow> int) \<Rightarrow> int \<Rightarrow> 'a option \<Rightarrow> 'a list \<Rightarrow> 'a option" where
  "pick f bs bm [] = bm"
| "pick f bs bm (x # xs) = (if f x > bs then pick f (f x) (Some x) xs else pick f bs bm xs)"

section \<open>The invariant of play\<close>

text \<open>The cell of a move, and the side whose move lies on a cell, if any.\<close>

definition cell_of :: "Move \<Rightarrow> int \<times> int" where
  "cell_of m = (row m, col m)"

definition owner :: "Move list \<Rightarrow> int \<times> int \<Rightarrow> Player" where
  "owner h rc = (case find (\<lambda>m. cell_of m = rc) h of None \<Rightarrow> NONE | Some m \<Rightarrow> player m)"

text \<open>The board on which exactly the moves of a history lie.\<close>

definition board_of :: "Move list \<Rightarrow> Board" where
  "board_of h =
     map (\<lambda>r. map (\<lambda>c. owner h (int r, int c)) [0..<nat BOARD_SIZE]) [0..<nat BOARD_SIZE]"

text \<open>The number of non-empty cells of a board.\<close>

definition stones :: "Board \<Rightarrow> nat" where
  "stones b = length (filter (\<lambda>p. p \<noteq> NONE) (concat b))"

text \<open>The side that makes the move after \<open>n\<close> moves: Black first, then in turn.\<close>

definition side_at :: "nat \<Rightarrow> Player" where
  "side_at n = (if even n then BLACK else WHITE)"

text \<open>After the last move of the history the game goes on: no line of five, board not full.\<close>

definition quiet :: "Move list \<Rightarrow> bool" where
  "quiet h \<longleftrightarrow> h \<noteq> [] \<and> checkWin (board_of h) (row (last h)) (col (last h)) = Some False
     \<and> isBoardFull (board_of h) = Some False"

text \<open>
  A history, newest move first: every move lies on the board, on a cell of its
  own, is made by the side whose turn it is and carries the next number, and
  the game went on after every move but the newest.
\<close>

fun ledger_ok :: "Move list \<Rightarrow> bool" where
  "ledger_ok [] = True"
| "ledger_ok (m # ms) \<longleftrightarrow>
     ledger_ok ms \<and> in_bounds (row m) (col m) \<and> cell_of m \<notin> cell_of ` set ms
     \<and> player m = side_at (length ms) \<and> moveNumber m = int (length ms) + 1
     \<and> (ms \<noteq> [] \<longrightarrow> quiet (rev ms))"

text \<open>Board, history and move count agree.\<close>

definition core :: "Game \<Rightarrow> bool" where
  "core g \<longleftrightarrow> board g = board_of (moveHistory g) \<and> ledger_ok (rev (moveHistory g))
     \<and> moveCount g = int (length (moveHistory g))"

text \<open>The invariant of the reachable states.\<close>

definition inv :: "Game \<Rightarrow> bool" where
  "inv g \<longleftrightarrow> core g \<and>
     (if gameOver g then moveHistory g \<noteq> []
      else currentPlayer g = side_at (length (moveHistory g))
           \<and> (moveHistory g \<noteq> [] \<longrightarrow> quiet (moveHistory g)))"

text \<open>One turn of the loop of undo.\<close>

definition popped :: "Game \<Rightarrow> Game" where
  "popped g = g\<lparr>moveHistory := butlast (moveHistory g),
     board := board_of (butlast (moveHistory g)), moveCount := moveCount g - 1\<rparr>"

text \<open>
  The side that \<open>undo\<close> makes the current player when it leaves the history \<open>h\<close>:
  the opposite of the side of the last entry left, Black when none is left.
\<close>

definition turn_after_undo :: "Move list \<Rightarrow> Player" where
  "turn_after_undo h =
     (if h \<noteq> [] then (if player (last h) = BLACK then WHITE else BLACK) else BLACK)"

text \<open>
  Board and history agree on the last move, and the game went on after it: the
  move lies on the board, its cell holds its side, its number is the move count,
  it made no line of five and did not fill the board.
\<close>

definition last_move_stands :: "Game \<Rightarrow> bool" where
  "last_move_stands g \<longleftrightarrow>
     wf_board (board g) \<and> moveHistory g \<noteq> [] \<and>
     (let m = last (moveHistory g) in
        in_bounds (row m) (col m) \<and> cellAt (board g) (row m) (col m) = Some (player m)
        \<and> moveNumber m = moveCount g
        \<and> checkWin (board g) (row m) (col m) = Some False
        \<and> isBoardFull (board g) = Some False)"

section \<open>Example positions\<close>

text \<open>Black stones on row 7, columns 3 to 7, on an otherwise empty board.\<close>

definition five_in_row_board :: Board where
  "five_in_row_board =
     createEmptyBoard[7 := replicate 3 NONE @ replicate 5 BLACK @ replicate 7 NONE]"

text \<open>A stand-in for \<open>JSON.stringify\<close> in the examples.\<close>

definition demo_stringify :: stringify where
  "demo_stringify v = ''snapshot''"

text \<open>A sequence of clicks, each with its clock value and coordinates.\<close>

fun clicks :: "stringify \<Rightarrow> (int \<times> int \<times> int) list \<Rightarrow> Game \<Rightarrow> Game option" where
  "clicks J [] g = Some g"
| "clicks J ((now, r, c) # xs) g = do { g' \<leftarrow> handleClick J now r c g; clicks J xs g' }"

text \<open>After Black's first stone on the centre, two-player mode.\<close>

definition opening_game :: Game where
  "opening_game = \<lparr> board = createEmptyBoard[7 := replicate 7 NONE @ [BLACK] @ replicate 7 NONE],
     currentPlayer = WHITE, gameOver = False,
     moveHistory = [\<lparr> row = 7, col = 7, player = BLACK, timestamp = 1000, moveNumber = 1 \<rparr>],
     moveCount = 1, gameMode = PVP, storage = Some ''snapshot'', pendingAI = 0 \<rparr>"

text \<open>A game of nine moves that Black has won on row 7.\<close>

definition finished_game :: Game where
  "finished_game = \<lparr>
     board = createEmptyBoard
       [0 := replicate 4 WHITE @ replicate 11 NONE,
        7 := replicate 3 NONE @ replicate 5 BLACK @ replicate 7 NONE],
     currentPlayer = BLACK, gameOver = True,
     moveHistory =
       [\<lparr> row = 7, col = 3, player = BLACK, timestamp = 1, moveNumber = 1 \<rparr>,
        \<lparr> row = 0, col = 0, player = WHITE, timestamp = 2, moveNumber = 2 \<rparr>,
        \<lparr> row = 7, col = 4, player = BLACK, timestamp = 3, moveNumber = 3 \<rparr>,
        \<lparr> row = 0, col = 1, player = WHITE, timestamp = 4, moveNumber = 4 \<rparr>,
        \<lparr> row = 7, col = 5, player = BLACK, timestamp = 5, moveNumber = 5 \<rparr>,
        \<lparr> row = 0, col = 2, player = WHITE, timestamp = 6, moveNumber = 6 \<rparr>,
        \<lparr> row = 7, col = 6, player = BLACK, timestamp = 7, moveNumber = 7 \<rparr>,
        \<lparr> row = 0, col = 3, player = WHITE, timestamp = 8, moveNumber = 8 \<rparr>,
        \<lparr> row = 7, col = 7, player = BLACK, timestamp = 9, moveNumber = 9 \<rparr>],
     moveCount = 9, gameMode = PVP, storage = None, pendingAI = 0 \<rparr>"

text \<open>
  Stand-ins for \<open>JSON.parse\<close> in the examples: the first knows the text \<open>{}\<close>, the
  second the text that \<open>demo_stringify\<close> writes for the opening game.
\<close>

definition parse_empty_object :: parse where
  "parse_empty_object s = (if s = ''{}'' then Inr (JObj []) else Inl SyntaxError)"

definition parse_opening :: parse where
  "parse_opening s = (if s = ''snapshot'' then Inr (gameState_of opening_game) else Inl SyntaxError)"

text \<open>The opening game with its one move stamped at clock value 2000.\<close>

definition opening_replayed :: Game where
  "opening_replayed = opening_game\<lparr>moveHistory :=
     [\<lparr> row = 7, col = 7, player = BLACK, timestamp = 2000, moveNumber = 1 \<rparr>]\<rparr>"

text \<open>
  Against the computer: Black's first stone on the centre with the reply
  scheduled, and the position after the computer has replied.
\<close>

definition pve_opening :: Game where
  "pve_opening = \<lparr>
     board = createEmptyBoard[7 := replicate 7 NONE @ [BLACK] @ replicate 7 NONE],
     currentPlayer = WHITE, gameOver = False,
     moveHistory = [\<lparr> row = 7, col = 7, player = BLACK, timestamp = 1, moveNumber = 1 \<rparr>],
     moveCount = 1, gameMode = PVE, storage = Some ''snapshot'', pendingAI = 1 \<rparr>"

definition pve_game :: Game where
  "pve_game = \<lparr>
     board = createEmptyBoard
       [6 := replicate 7 NONE @ [WHITE] @ replicate 7 NONE,
        7 := replicate 7 NONE @ [BLACK] @ replicate 7 NONE],
     currentPlayer = BLACK, gameOver = False,
     moveHistory =
       [\<lparr> row = 7, col = 7, player = BLACK, timestamp = 1, moveNumber = 1 \<rparr>,
        \<lparr> row = 6, col = 7, player = WHITE, timestamp = 2, moveNumber = 2 \<rparr>],
     moveCount = 2, gameMode = PVE, storage = Some ''snapshot'', pendingAI = 0 \<rparr>"

text \<open>
  What a new engine holds once it has loaded the snapshot that the first click
  of the opening game left in storage, and a stand-in for \<open>JSON.parse\<close> that
  knows the text of that snapshot.
\<close>

definition stale_game :: Game where
  "stale_game = opening_game\<lparr>currentPlayer := BLACK\<rparr>"

definition parse_stale :: parse where
  "parse_stale s = (if s = ''snapshot'' then Inr (gameState_of stale_game) else Inl SyntaxError)"

text \<open>The reloaded game after a click on the corner: two black stones in a row.\<close>

definition twice_black_game :: Game where
  "twice_black_game = \<lparr>
     board = createEmptyBoard
       [0 := [BLACK] @ replicate 14 NONE,
        7 := replicate 7 NONE @ [BLACK] @ replicate 7 NONE],
     currentPlayer = WHITE, gameOver = False,
     moveHistory =
       [\<lparr> row = 7, col = 7, player = BLACK, timestamp = 1000, moveNumber = 1 \<rparr>,
        \<lparr> row = 0, col = 0, player = BLACK, timestamp = 3000, moveNumber = 2 \<rparr>],
     moveCount = 2, gameMode = PVP, storage = Some ''snapshot'', pendingAI = 0 \<rparr>"

section \<open>Win detection is exact\<close>

text \<open>
  On a 15 by 15 board the loop of \<open>countDirection\<close> ends for every direction other
  than \<open>(0, 0)\<close>, with the length of the run as its result.
\<close>

lemma cellAt_wf: "wf_board b \<Longrightarrow> in_bounds r c \<Longrightarrow> \<exists>v. cellAt b r c = Some v"
  by (auto simp: wf_board_def in_bounds_def cellAt_def list_all_length)

lemma loop_runs:
  assumes wf: "wf_board b" and d: "dx \<noteq> 0 \<or> dy \<noteq> 0" and rc: "in_bounds r c"
  shows "j \<le> 15 \<Longrightarrow>
    countDirection_loop b dx dy p count (r + int j * dx) (c + int j * dy) =
      Some (count + length (takeWhile (\<lambda>i. holds b p (r + int i * dx) (c + int i * dy)) [j..<15]))"
proof (induction "15 - j" arbitrary: j count)
  case 0
  then have j: "j = 15" by simp
  have "\<not> in_bounds (r + 15 * dx) (c + 15 * dy)"
    using d rc by (auto simp: in_bounds_def)
  then show ?case
    by (subst countDirection_loop.simps) (auto simp: j in_bounds_def)
next
  case (Suc k)
  then have j: "j < 15" by simp
  let ?r = "r + int j * dx" and ?c = "c + int j * dy"
  have up: "[j..<15] = j # [Suc j..<15]" using j by (simp add: upt_conv_Cons)
  have nxt: "?r + dx = r + int (Suc j) * dx" "?c + dy = c + int (Suc j) * dy"
    by (simp_all add: algebra_simps)
  show ?case
  proof (cases "in_bounds ?r ?c")
    case False
    then show ?thesis
      by (subst countDirection_loop.simps) (auto simp: up holds_def in_bounds_def)
  next
    case True
    then obtain v where v: "cellAt b ?r ?c = Some v" using cellAt_wf[OF wf] by blast
    have ih: "countDirection_loop b dx dy p (count + 1) (?r + dx) (?c + dy) =
        Some (count + 1 + length (takeWhile (\<lambda>i. holds b p (r + int i * dx) (c + int i * dy)) [Suc j..<15]))"
      unfolding nxt using Suc.hyps(1)[of "Suc j" "count + 1"] Suc.hyps(2) j by simp
    show ?thesis
      by (subst countDirection_loop.simps) (use True v ih in \<open>auto simp: up holds_def in_bounds_def\<close>)
  qed
qed

lemma countDirection_runLen:
  assumes "wf_board b" "dx \<noteq> 0 \<or> dy \<noteq> 0" "in_bounds r c"
  shows "countDirection b r c dx dy p = Some (runLen b p r c dx dy)"
  using loop_runs[OF assms, of 1 p 0] by (simp add: countDirection_def runLen_def)

lemma runLen_le: "runLen b p r c dx dy \<le> 14"
  unfolding runLen_def using length_takeWhile_le[of _ "[1..<nat BOARD_SIZE]"] by simp

lemma runLen_holds:
  assumes "1 \<le> i" "i \<le> runLen b p r c dx dy"
  shows "holds b p (r + int i * dx) (c + int i * dy)"
proof -
  let ?P = "\<lambda>i. holds b p (r + int i * dx) (c + int i * dy)"
  let ?xs = "[1..<nat BOARD_SIZE]"
  have lt: "i - 1 < length (takeWhile ?P ?xs)" using assms by (simp add: runLen_def)
  then have "takeWhile ?P ?xs ! (i - 1) \<in> set (takeWhile ?P ?xs)" by (rule nth_mem)
  moreover have "takeWhile ?P ?xs ! (i - 1) = ?xs ! (i - 1)" using lt by (rule takeWhile_nth)
  moreover have "i - 1 < length ?xs" using lt length_takeWhile_le[of ?P ?xs] by linarith
  then have "?xs ! (i - 1) = i" using assms(1) by simp
  ultimately show ?thesis using set_takeWhileD by fastforce
qed

lemma runLen_ge:
  assumes "n \<le> 14" "\<And>i. 1 \<le> i \<Longrightarrow> i \<le> n \<Longrightarrow> holds b p (r + int i * dx) (c + int i * dy)"
  shows "n \<le> runLen b p r c dx dy"
  unfolding runLen_def
proof (rule length_takeWhile_less_P_nth)
  show "n \<le> length [1..<nat BOARD_SIZE]" using assms(1) by simp
next
  fix i assume "i < n"
  then have "[1..<nat BOARD_SIZE] ! i = Suc i" using assms(1) by simp
  then show "holds b p (r + int ([1..<nat BOARD_SIZE] ! i) * dx) (c + int ([1..<nat BOARD_SIZE] ! i) * dy)"
    using assms(2)[of "Suc i"] \<open>i < n\<close> by simp
qed

lemma axis_five:
  assumes rc: "in_bounds r c" and here: "holds b S r c" and ax: "(dx, dy) \<in> axes"
  shows "(\<exists>lo hi. lo \<le> 0 \<and> 0 \<le> hi \<and> 5 \<le> hi - lo + 1 \<and>
            (\<forall>i. lo \<le> i \<and> i \<le> hi \<longrightarrow> holds b S (r + i * dx) (c + i * dy)))
         \<longleftrightarrow> 5 \<le> 1 + runLen b S r c dx dy + runLen b S r c (- dx) (- dy)"
    (is "?L \<longleftrightarrow> ?R")
proof
  assume ?R
  let ?hi = "int (runLen b S r c dx dy)" and ?lo = "- int (runLen b S r c (- dx) (- dy))"
  have "holds b S (r + i * dx) (c + i * dy)" if i: "?lo \<le> i" "i \<le> ?hi" for i
  proof -
    consider "i = 0" | "1 \<le> i" | "i \<le> -1" by linarith
    then show ?thesis
    proof cases
      case 1 then show ?thesis using here by simp
    next
      case 2
      then show ?thesis using runLen_holds[of "nat i" b S r c dx dy] i by simp
    next
      case 3
      then show ?thesis using runLen_holds[of "nat (- i)" b S r c "- dx" "- dy"] i by simp
    qed
  qed
  with \<open>?R\<close> show ?L by (intro exI[of _ ?lo] exI[of _ ?hi]) auto
next
  assume ?L
  then obtain lo hi where lh: "lo \<le> 0" "0 \<le> hi" "5 \<le> hi - lo + 1"
    and all: "\<And>i. lo \<le> i \<Longrightarrow> i \<le> hi \<Longrightarrow> holds b S (r + i * dx) (c + i * dy)" by blast
  have "holds b S (r + hi * dx) (c + hi * dy)" "holds b S (r + lo * dx) (c + lo * dy)"
    using all lh by auto
  then have bounds: "hi \<le> 14" "- lo \<le> 14"
    using rc ax by (auto simp: holds_def in_bounds_def axes_def)
  have "nat hi \<le> runLen b S r c dx dy"
    by (rule runLen_ge) (use bounds lh all in auto)
  moreover have "nat (- lo) \<le> runLen b S r c (- dx) (- dy)"
  proof (rule runLen_ge)
    show "nat (- lo) \<le> 14" using bounds by simp
  next
    fix i :: nat assume "1 \<le> i" "i \<le> nat (- lo)"
    then show "holds b S (r + int i * - dx) (c + int i * - dy)"
      using all[of "- int i"] lh by simp
  qed
  ultimately show ?R using lh by linarith
qed

lemma checkWin_dirs_runLen:
  assumes "wf_board b" "in_bounds r c" "\<forall>(dx, dy) \<in> set ds. dx \<noteq> 0 \<or> dy \<noteq> 0"
  shows "checkWin_dirs b r c p ds =
     Some (\<exists>(dx, dy) \<in> set ds. 5 \<le> 1 + runLen b p r c dx dy + runLen b p r c (- dx) (- dy))"
  using assms(3)
proof (induction ds)
  case Nil
  show ?case by simp
next
  case (Cons d ds)
  obtain dx dy where d: "d = (dx, dy)" by (cases d)
  have nz: "dx \<noteq> 0 \<or> dy \<noteq> 0" "- dx \<noteq> 0 \<or> - dy \<noteq> 0" using Cons.prems d by auto
  show ?case
    using Cons countDirection_runLen[OF assms(1) nz(1) assms(2)]
      countDirection_runLen[OF assms(1) nz(2) assms(2)]
    by (auto simp: d)
qed

lemma set_directions: "set directions = axes"
  by (auto simp: directions_def axes_def)

text \<open>
  Claim C2. On a 15 by 15 board, for a cell \<open>(r, c)\<close> of the board that holds \<open>S\<close>,
  \<open>checkWin\<close> returns, and it returns true exactly when a run of at least five
  contiguous cells of \<open>S\<close> along one of the four axes passes through \<open>(r, c)\<close>,
  a run ending where the board ends. The side \<open>S\<close> is whatever the cell holds.
\<close>

theorem checkWin_iff_line_of_five:
  assumes "wf_board b" "in_bounds r c" "cellAt b r c = Some S"
  shows "checkWin b r c = Some (line_of_five b S r c)"
proof -
  have here: "holds b S r c" using assms by (simp add: holds_def)
  have nz: "\<forall>(dx, dy) \<in> set directions. dx \<noteq> 0 \<or> dy \<noteq> 0" by (simp add: directions_def)
  have "checkWin b r c = checkWin_dirs b r c S directions"
    using assms(3) by (simp add: checkWin_def)
  also have "\<dots> = Some (\<exists>(dx, dy) \<in> axes. 5 \<le> 1 + runLen b S r c dx dy + runLen b S r c (- dx) (- dy))"
    using checkWin_dirs_runLen[OF assms(1,2) nz] by (simp add: set_directions)
  also have "(\<exists>(dx, dy) \<in> axes. 5 \<le> 1 + runLen b S r c dx dy + runLen b S r c (- dx) (- dy))
      = line_of_five b S r c"
    unfolding line_of_five_def using axis_five[OF assms(2) here] by blast
  finally show ?thesis .
qed

theorem checkWin_iff_line_of_five_witness:
  "wf_board five_in_row_board \<and> in_bounds 7 5 \<and> cellAt five_in_row_board 7 5 = Some BLACK \<and>
   checkWin five_in_row_board 7 5 = Some True \<and> line_of_five five_in_row_board BLACK 7 5"
proof -
  have a: "wf_board five_in_row_board" by code_simp
  have b: "in_bounds 7 5" by code_simp
  have c: "cellAt five_in_row_board 7 5 = Some BLACK" by code_simp
  have d: "checkWin five_in_row_board 7 5 = Some True" by code_simp
  from checkWin_iff_line_of_five[OF a b c] d a b c show ?thesis by simp
qed

section \<open>The score of a cell\<close>

lemma evaluatePosition_dirs_sum:
  assumes "wf_board b" "in_bounds r c" "\<forall>(dx, dy) \<in> set ds. dx \<noteq> 0 \<or> dy \<noteq> 0"
  shows "evaluatePosition_dirs b r c p opp score ds =
     Some (score + (\<Sum>(dx, dy) \<leftarrow> ds. my_bonus (both_ways b p r c dx dy)
                                      + opp_bonus (both_ways b opp r c dx dy)))"
  using assms(3)
proof (induction ds arbitrary: score)
  case Nil
  show ?case by simp
next
  case (Cons d ds)
  obtain dx dy where d: "d = (dx, dy)" by (cases d)
  have nz: "dx \<noteq> 0 \<or> dy \<noteq> 0" "- dx \<noteq> 0 \<or> - dy \<noteq> 0" using Cons.prems d by auto
  have rest: "\<forall>(dx, dy) \<in> set ds. dx \<noteq> 0 \<or> dy \<noteq> 0" using Cons.prems by simp
  note cd = countDirection_runLen[OF assms(1) nz(1) assms(2)]
    countDirection_runLen[OF assms(1) nz(2) assms(2)]
  show ?case
    unfolding d evaluatePosition_dirs.simps cd
    by (simp add: Cons.IH[OF rest] my_bonus_def opp_bonus_def both_ways_def Let_def)
qed

lemma distinct_directions: "distinct directions"
  by (simp add: directions_def)

lemma evaluatePosition_score:
  assumes "wf_board b" "in_bounds r c" "side \<noteq> NONE"
  shows "evaluatePosition b r c side = Some (score_spec b r c side)"
proof -
  have nz: "\<forall>(dx, dy) \<in> set directions. dx \<noteq> 0 \<or> dy \<noteq> 0" by (simp add: directions_def)
  have opp: "opponent_of side = other_side side"
    using assms(3) by (cases side) (simp_all add: opponent_of_def other_side_def)
  have "(\<Sum>(dx, dy) \<leftarrow> directions. my_bonus (both_ways b side r c dx dy)
            + opp_bonus (both_ways b (other_side side) r c dx dy))
      = (\<Sum>(dx, dy) \<in> axes. my_bonus (both_ways b side r c dx dy)
            + opp_bonus (both_ways b (other_side side) r c dx dy))"
    using sum_list_distinct_conv_sum_set[OF distinct_directions] by (simp add: set_directions)
  then show ?thesis
    unfolding evaluatePosition_def evaluatePosition_dirs_sum[OF assms(1,2) nz] opp score_spec_def
    by (simp add: Let_def)
qed

text \<open>
  Claim C6. On a 15 by 15 board, for a cell \<open>(r, c)\<close> of the board and a side to
  move, \<open>evaluatePosition\<close> returns the sum over the four axes of the bonus for the
  mover's run (100000 from four, 10000 for three, 1000 for two, 100 for one) and
  the bonus for the opponent's run (50000 from four, 5000 for three, 500 for two,
  nothing below), each run counted in both directions without the candidate cell,
  plus the centrality bonus \<open>(14 - |r - 7| - |c - 7|) * 10\<close>.
\<close>

theorem evaluatePosition_formula:
  assumes "wf_board b" "in_bounds r c" "side \<noteq> NONE"
  shows "evaluatePosition b r c side = Some (score_spec b r c side)"
  using assms by (rule evaluatePosition_score)

theorem evaluatePosition_formula_witness:
  "wf_board five_in_row_board \<and> in_bounds 7 8 \<and> BLACK \<noteq> NONE \<and>
   evaluatePosition five_in_row_board 7 8 BLACK = Some 100130 \<and>
   score_spec five_in_row_board 7 8 BLACK = 100130"
proof -
  have a: "wf_board five_in_row_board" by code_simp
  have b: "in_bounds 7 8" by code_simp
  have c: "BLACK \<noteq> NONE" by simp
  have d: "evaluatePosition five_in_row_board 7 8 BLACK = Some 100130" by code_simp
  from evaluatePosition_formula[OF a b c] d a b show ?thesis by simp
qed

section \<open>The example games are reached by play\<close>

lemma reachable_clicks:
  "reachable J g \<Longrightarrow> clicks J xs g = Some g' \<Longrightarrow> reachable J g'"
proof (induction xs arbitrary: g)
  case Nil
  then show ?case by simp
next
  case (Cons x xs)
  obtain now r c where x: "x = (now, r, c)" by (cases x)
  from Cons.prems(2) obtain g1 where g1: "handleClick J now r c g = Some g1"
    and rest: "clicks J xs g1 = Some g'"
    by (auto simp: x bind_eq_Some_conv)
  from reachable.click[OF Cons.prems(1) g1] rest show ?case by (rule Cons.IH)
qed

lemma opening_game_played:
  "clicks demo_stringify [(1000, 7, 7)] initial = Some opening_game"
  by code_simp

lemma finished_game_played:
  "clicks demo_stringify
     [(1, 7, 3), (2, 0, 0), (3, 7, 4), (4, 0, 1), (5, 7, 5), (6, 0, 2), (7, 7, 6), (8, 0, 3), (9, 7, 7)]
     initial = Some finished_game"
  by code_simp

lemma reachable_opening_game: "reachable demo_stringify opening_game"
  using reachable_clicks[OF reachable.start opening_game_played] .

lemma reachable_finished_game: "reachable demo_stringify finished_game"
  using reachable_clicks[OF reachable.start finished_game_played] .

section \<open>Undo in a finished game\<close>

text \<open>
  Claim C1, as the code has it. When the game-over flag is set, \<open>undo\<close> returns at
  its first line: the history, the board and the flag stay as they are. Moves are
  taken back only while the game is in progress.
\<close>

theorem undo_when_over: "gameOver g \<Longrightarrow> undo J g = Some g"
  by (simp add: undo_def)

theorem undo_when_over_witness:
  "gameOver finished_game \<and> undo demo_stringify finished_game = Some finished_game"
proof -
  have over: "gameOver finished_game" by (simp add: finished_game_def)
  from undo_when_over[OF over] over show ?thesis by simp
qed

text \<open>
  The finished game above is reached by nine clicks, its flag is set and its
  history is not empty, and \<open>undo\<close> leaves it finished.
\<close>

theorem undo_finished_game_counterexample:
  "reachable demo_stringify finished_game \<and> gameOver finished_game \<and>
   moveHistory finished_game \<noteq> [] \<and>
   undo demo_stringify finished_game = Some finished_game"
  using reachable_finished_game by (simp add: finished_game_def undo_def)

section \<open>Rejected clicks\<close>

text \<open>
  Claim C8. A click is rejected when the game is over, when in the mode against
  the computer it is White's turn, when the coordinates are off the board, or
  when the cell is occupied. Then \<open>handleClick\<close> returns the state it was given:
  board, history, current player and game-over flag are unchanged.
\<close>

theorem handleClick_rejected:
  assumes "gameOver g \<or> (gameMode g = PVE \<and> currentPlayer g = WHITE) \<or> \<not> in_bounds r c
           \<or> (\<exists>v. cellAt (board g) r c = Some v \<and> v \<noteq> NONE)"
  shows "handleClick J now r c g = Some g"
  using assms by (auto simp: handleClick_def in_bounds_def)

theorem handleClick_rejected_witness:
  "cellAt (board opening_game) 7 7 = Some BLACK \<and>
   handleClick demo_stringify 2000 7 7 opening_game = Some opening_game"
proof -
  have occ: "cellAt (board opening_game) 7 7 = Some BLACK" by code_simp
  then have "gameOver opening_game \<or> (gameMode opening_game = PVE \<and> currentPlayer opening_game = WHITE)
      \<or> \<not> in_bounds 7 7 \<or> (\<exists>v. cellAt (board opening_game) 7 7 = Some v \<and> v \<noteq> NONE)"
    by simp
  from handleClick_rejected[OF this] occ show ?thesis by simp
qed

section \<open>Saving and loading\<close>

lemma inj_js_of_Player: "js_of_Player p = js_of_Player q \<Longrightarrow> p = q"
  by (cases p; cases q) (simp_all add: js_of_Player_def)

lemma inj_js_of_GameMode: "js_of_GameMode m = js_of_GameMode n \<Longrightarrow> m = n"
  by (cases m; cases n) (simp_all add: js_of_GameMode_def)

lemma inj_js_of_Board: "js_of_Board a = js_of_Board b \<Longrightarrow> a = b"
proof -
  assume eq: "js_of_Board a = js_of_Board b"
  have inner: "inj (\<lambda>r. JArr (map js_of_Player r))"
    by (rule injI) (auto dest!: map_injective intro: injI inj_js_of_Player)
  from eq have "map (\<lambda>r. JArr (map js_of_Player r)) a = map (\<lambda>r. JArr (map js_of_Player r)) b"
    by (simp add: js_of_Board_def)
  then show "a = b" using inner by (rule map_injective)
qed

lemma inj_js_of_Move: "js_of_Move m = js_of_Move n \<Longrightarrow> m = n"
  by (cases m; cases n) (auto simp: js_of_Move_def dest: inj_js_of_Player)

lemma inj_js_of_History: "js_of_History h = js_of_History k \<Longrightarrow> h = k"
proof -
  assume "js_of_History h = js_of_History k"
  then have "map js_of_Move h = map js_of_Move k" by (simp add: js_of_History_def)
  then show "h = k" by (rule map_injective) (auto intro: injI inj_js_of_Move)
qed

lemma raw_of_Game_inj:
  assumes "raw_of_Game g = raw_of_Game g'"
  shows "board g = board g' \<and> moveHistory g = moveHistory g' \<and> currentPlayer g = currentPlayer g'
    \<and> gameMode g = gameMode g' \<and> gameOver g = gameOver g' \<and> moveCount g = moveCount g'
    \<and> storage g = storage g'"
  using assms
  by (auto simp: raw_of_Game_def dest: inj_js_of_Board inj_js_of_History inj_js_of_Player inj_js_of_GameMode)

lemma loadGame_absent: "rawStorage e = None \<Longrightarrow> loadGame P e = e"
  by (simp add: loadGame_def)

lemma loadGame_unparsable:
  "rawStorage e = Some s \<Longrightarrow> s \<noteq> [] \<Longrightarrow> P s = Inl err \<Longrightarrow> loadGame P e = e\<lparr>rawStorage := None\<rparr>"
  by (simp add: loadGame_def loadGame_try_def)

lemma loadGame_snapshot:
  assumes "rawStorage e = Some s" "s \<noteq> []" "P s = Inr (gameState_of g)"
  shows "loadGame P e = raw_of_Game (g\<lparr>moveCount := int (length (moveHistory g)), storage := Some s\<rparr>)"
  using assms
  by (cases e) (simp add: loadGame_def loadGame_try_def gameState_of_def raw_of_Game_def js_of_History_def)

text \<open>
  The pair \<open>saveGame\<close>, \<open>loadGame\<close> loses nothing. Let \<open>g\<close> be a game that is not over,
  and let \<open>JSON.parse\<close> give back the snapshot that \<open>JSON.stringify\<close> wrote for it
  (and reject the empty text). Saving \<open>g\<close> and loading on a fresh engine yields the
  state \<open>g\<close> as the engine holds it, with the move count set to the length of the
  history.
\<close>

lemma save_then_load:
  assumes "\<not> gameOver g" "P (J (gameState_of g)) = Inr (gameState_of g)" "P [] = Inl SyntaxError"
  shows "loadGame P (raw_of_Game (initial\<lparr>storage := storage (saveGame J g)\<rparr>)) =
           raw_of_Game ((saveGame J g)\<lparr>moveCount := int (length (moveHistory g))\<rparr>)
       \<and> (\<forall>g'. loadGame P (raw_of_Game (initial\<lparr>storage := storage (saveGame J g)\<rparr>)) = raw_of_Game g'
             \<longrightarrow> board g' = board g \<and> moveHistory g' = moveHistory g
               \<and> currentPlayer g' = currentPlayer g \<and> gameMode g' = gameMode g
               \<and> gameOver g' = gameOver g)"
proof -
  let ?s = "J (gameState_of g)"
  let ?e = "raw_of_Game (initial\<lparr>storage := storage (saveGame J g)\<rparr>)"
  have ne: "?s \<noteq> []" using assms(2,3) by auto
  have st: "rawStorage ?e = Some ?s" using assms(1) by (simp add: raw_of_Game_def saveGame_def)
  have main: "loadGame P ?e = raw_of_Game ((saveGame J g)\<lparr>moveCount := int (length (moveHistory g))\<rparr>)"
    using loadGame_snapshot[where P = P and e = "?e" and s = "?s" and g = g, OF st ne assms(2)] assms(1)
    by (simp add: saveGame_def raw_of_Game_def)
  show ?thesis
  proof (intro conjI allI impI)
    show "loadGame P ?e = raw_of_Game ((saveGame J g)\<lparr>moveCount := int (length (moveHistory g))\<rparr>)"
      by (rule main)
  next
    fix g' assume "loadGame P ?e = raw_of_Game g'"
    with main have "raw_of_Game ((saveGame J g)\<lparr>moveCount := int (length (moveHistory g))\<rparr>) = raw_of_Game g'"
      by simp
    from raw_of_Game_inj[OF this] assms(1)
    show "board g' = board g" "moveHistory g' = moveHistory g" "currentPlayer g' = currentPlayer g"
      "gameMode g' = gameMode g" "gameOver g' = gameOver g"
      by (simp_all add: saveGame_def)
  qed
qed

lemma save_then_load_example:
  "\<not> gameOver opening_game \<and>
   parse_opening (demo_stringify (gameState_of opening_game)) = Inr (gameState_of opening_game) \<and>
   parse_opening [] = Inl SyntaxError \<and>
   loadGame parse_opening (raw_of_Game (initial\<lparr>storage := storage (saveGame demo_stringify opening_game)\<rparr>))
     = raw_of_Game opening_game"
proof -
  have a: "\<not> gameOver opening_game" by (simp add: opening_game_def)
  have b: "parse_opening (demo_stringify (gameState_of opening_game)) = Inr (gameState_of opening_game)"
    by (simp add: parse_opening_def demo_stringify_def)
  have c: "parse_opening [] = Inl SyntaxError" by (simp add: parse_opening_def)
  have d: "(saveGame demo_stringify opening_game)\<lparr>moveCount := int (length (moveHistory opening_game))\<rparr>
      = opening_game"
    by (simp add: saveGame_def opening_game_def demo_stringify_def)
  note e = save_then_load[where P = parse_opening and J = demo_stringify and g = opening_game,
      OF a b c, THEN conjunct1, unfolded d]
  show ?thesis
    by (intro conjI) (rule a, rule b, rule c, rule e)
qed

text \<open>
  Claim C4 fails on the code for a snapshot that parses but has the wrong shape.
  With the text \<open>{}\<close> stored, \<open>loadGame\<close> has already assigned \<open>undefined\<close> to the
  board, the current player, the game-over flag and the history when reading
  \<open>moveHistory.length\<close> throws; the \<open>catch\<close> block removes the item and the four
  fields stay as they are, so the engine is not in its fresh state.
\<close>

theorem loadGame_empty_object:
  assumes "P ''{}'' = Inr (JObj [])"
  shows "loadGame P (raw_of_Game (initial\<lparr>storage := Some ''{}''\<rparr>)) =
     \<lparr> rawBoard = JUndefined, rawCurrentPlayer = JUndefined, rawGameOver = JUndefined,
       rawMoveHistory = JUndefined, rawMoveCount = JNum 0, rawGameMode = JStr ''pvp'',
       rawStorage = None \<rparr>"
  using assms
  by (simp add: loadGame_def loadGame_try_def raw_of_Game_def initial_def js_of_GameMode_def)

theorem loadGame_empty_object_witness:
  "parse_empty_object ''{}'' = Inr (JObj []) \<and>
   rawBoard (loadGame parse_empty_object (raw_of_Game (initial\<lparr>storage := Some ''{}''\<rparr>))) = JUndefined \<and>
   rawBoard (raw_of_Game initial) \<noteq> JUndefined"
proof -
  have a: "parse_empty_object ''{}'' = Inr (JObj [])" by (simp add: parse_empty_object_def)
  have b: "rawBoard (raw_of_Game initial) \<noteq> JUndefined" by (simp add: raw_of_Game_def js_of_Board_def)
  have c: "rawBoard (loadGame parse_empty_object (raw_of_Game (initial\<lparr>storage := Some ''{}''\<rparr>))) = JUndefined"
    unfolding loadGame_empty_object[where P = parse_empty_object, OF a] by simp
  show ?thesis by (intro conjI) (rule a, rule c, rule b)
qed

text \<open>
  Claim C9 fails on the code for the snapshots that play leaves in storage.
  \<open>placePiece\<close> calls \<open>saveGame\<close> before \<open>switchPlayer\<close>: after a move that does not end
  the game the stored snapshot is the new state with the mover still as current
  player. A fresh engine that loads it has the board, the history and the mode of
  the game, and the wrong side to move. (\<open>undo\<close> saves after it has set the player.)
\<close>

theorem snapshot_of_move_names_mover:
  assumes "placePiece J now r c g = Some g'" "\<not> gameOver g" "\<not> gameOver g'"
    and "P (J (gameState_of (g'\<lparr>currentPlayer := currentPlayer g\<rparr>)))
           = Inr (gameState_of (g'\<lparr>currentPlayer := currentPlayer g\<rparr>))"
    and "P [] = Inl SyntaxError"
  shows "currentPlayer g' \<noteq> currentPlayer g
     \<and> storage g' = Some (J (gameState_of (g'\<lparr>currentPlayer := currentPlayer g\<rparr>)))
     \<and> loadGame P (raw_of_Game (initial\<lparr>storage := storage g'\<rparr>)) =
         raw_of_Game (g'\<lparr>currentPlayer := currentPlayer g,
                          moveCount := int (length (moveHistory g'))\<rparr>)"
proof -
  let ?gs = "g'\<lparr>currentPlayer := currentPlayer g\<rparr>"
  let ?s = "J (gameState_of ?gs)"
  from assms(1,2,3) have cp: "currentPlayer g' \<noteq> currentPlayer g" and st: "storage g' = Some ?s"
    by (auto simp: placePiece_def saveGame_def endGame_def switchPlayer_def Let_def
        gameState_of_def bind_eq_Some_conv split: if_splits)
  have ne: "?s \<noteq> []" using assms(4,5) by auto
  have rs: "rawStorage (raw_of_Game (initial\<lparr>storage := storage g'\<rparr>)) = Some ?s"
    using st by (simp add: raw_of_Game_def)
  have "loadGame P (raw_of_Game (initial\<lparr>storage := storage g'\<rparr>)) =
      raw_of_Game (?gs\<lparr>moveCount := int (length (moveHistory ?gs)), storage := Some ?s\<rparr>)"
    by (rule loadGame_snapshot[where P = P and g = "?gs", OF rs ne assms(4)])
  also have "\<dots> = raw_of_Game (g'\<lparr>currentPlayer := currentPlayer g,
                          moveCount := int (length (moveHistory g'))\<rparr>)"
    using st by (simp add: raw_of_Game_def)
  finally show ?thesis using cp st by blast
qed

lemma opening_game_placed: "placePiece demo_stringify 1000 7 7 initial = Some opening_game"
  by code_simp

theorem snapshot_of_move_names_mover_witness:
  "placePiece demo_stringify 1000 7 7 initial = Some opening_game \<and>
   currentPlayer opening_game = WHITE \<and>
   loadGame parse_stale (raw_of_Game (initial\<lparr>storage := storage opening_game\<rparr>))
     = raw_of_Game stale_game \<and>
   currentPlayer stale_game = BLACK"
proof -
  have a: "\<not> gameOver initial" "\<not> gameOver opening_game"
    by (simp_all add: initial_def opening_game_def)
  have g: "opening_game\<lparr>currentPlayer := currentPlayer initial\<rparr> = stale_game"
    by (simp add: stale_game_def initial_def)
  have p: "parse_stale (demo_stringify (gameState_of (opening_game\<lparr>currentPlayer := currentPlayer initial\<rparr>)))
      = Inr (gameState_of (opening_game\<lparr>currentPlayer := currentPlayer initial\<rparr>))"
    unfolding g by (simp add: parse_stale_def demo_stringify_def)
  have e: "parse_stale [] = Inl SyntaxError" by (simp add: parse_stale_def)
  have m: "opening_game\<lparr>currentPlayer := currentPlayer initial,
      moveCount := int (length (moveHistory opening_game))\<rparr> = stale_game"
    by (simp add: stale_game_def initial_def opening_game_def)
  note t = snapshot_of_move_names_mover[where P = parse_stale and J = demo_stringify
      and g = initial and g' = opening_game, OF opening_game_placed a p e, unfolded m]
  have w: "currentPlayer opening_game = WHITE" by (simp add: opening_game_def)
  have b: "currentPlayer stale_game = BLACK" by (simp add: stale_game_def)
  show ?thesis
    by (intro conjI) (rule opening_game_placed, rule w, rule t[THEN conjunct2, THEN conjunct2], rule b)
qed

section \<open>The computer's move\<close>

lemma nat_cell_in_cells:
  assumes "i < 15" "j < 15"
  shows "(int i, int j) \<in> set cells"
proof -
  have "(int i, int j) \<in> set (map (\<lambda>c. (int i, int c)) [0..<nat BOARD_SIZE])"
    using assms(2) by simp
  moreover have "map (\<lambda>c. (int i, int c)) [0..<nat BOARD_SIZE]
      \<in> set (map (\<lambda>r. map (\<lambda>c. (int r, int c)) [0..<nat BOARD_SIZE]) [0..<nat BOARD_SIZE])"
    unfolding set_map by (rule image_eqI[where x = i]) (use assms(1) in simp_all)
  ultimately show ?thesis unfolding cells_def set_concat by (rule UN_I[rotated])
qed

lemma set_cells: "set cells = {(r, c). in_bounds r c}"
proof -
  have "(r, c) \<in> set cells \<longleftrightarrow> in_bounds r c" for r c
  proof
    assume "(r, c) \<in> set cells"
    then show "in_bounds r c" by (auto simp: cells_def in_bounds_def)
  next
    assume ib: "in_bounds r c"
    then have "nat r < 15" "nat c < 15" by (auto simp: in_bounds_def)
    then have "(int (nat r), int (nat c)) \<in> set cells" by (rule nat_cell_in_cells)
    then show "(r, c) \<in> set cells" using ib by (simp add: in_bounds_def)
  qed
  then show ?thesis by auto
qed

lemma setCell_wf:
  assumes "wf_board b" "in_bounds r c"
  shows "setCell b r c v = Some (b[nat r := (b ! nat r)[nat c := v]])"
    and "wf_board (b[nat r := (b ! nat r)[nat c := v]])"
  using assms
  by (auto simp: setCell_def wf_board_def in_bounds_def list_all_length nth_list_update)

lemma cellAt_setCell_same:
  assumes "wf_board b" "in_bounds r c"
  shows "cellAt (b[nat r := (b ! nat r)[nat c := v]]) r c = Some v"
  using assms by (auto simp: cellAt_def wf_board_def in_bounds_def list_all_length)

lemma set_back:
  assumes "wf_board b" "in_bounds r c" "cellAt b r c = Some v"
  shows "setCell (b[nat r := (b ! nat r)[nat c := w]]) r c v = Some b"
proof -
  have v: "b ! nat r ! nat c = v" using assms by (auto simp: cellAt_def split: if_splits)
  have len: "nat r < length b" "nat c < length (b ! nat r)"
    using assms by (auto simp: wf_board_def in_bounds_def list_all_length)
  have "(b ! nat r)[nat c := w, nat c := v] = b ! nat r"
    unfolding v[symmetric] by simp
  then have "b[nat r := (b ! nat r)[nat c := w], nat r := (b ! nat r)[nat c := w, nat c := v]] = b"
    by simp
  then show ?thesis
    using setCell_wf[OF setCell_wf(2)[OF assms(1,2), of w] assms(2), of v] len by simp
qed

lemma checkWin_total:
  assumes "wf_board b" "in_bounds r c"
  shows "\<exists>w. checkWin b r c = Some w"
proof -
  obtain p where p: "cellAt b r c = Some p" using cellAt_wf[OF assms] by blast
  have nz: "\<forall>(dx, dy) \<in> set directions. dx \<noteq> 0 \<or> dy \<noteq> 0" by (simp add: directions_def)
  show ?thesis
    using checkWin_dirs_runLen[OF assms nz, of p] by (simp add: checkWin_def p)
qed

lemma findWinningCell_find:
  assumes wf: "wf_board b"
  shows "\<forall>(r, c) \<in> set cs. in_bounds r c \<Longrightarrow>
         findWinningCell b side cs = Some (find (wins_at b side) cs, b)"
proof (induction cs)
  case Nil
  show ?case by simp
next
  case (Cons x cs)
  obtain r c where x: "x = (r, c)" by (cases x)
  have ib: "in_bounds r c" and rest: "\<forall>(r, c) \<in> set cs. in_bounds r c"
    using Cons.prems by (auto simp: x)
  note IH = Cons.IH[OF rest]
  obtain v where v: "cellAt b r c = Some v" using cellAt_wf[OF wf ib] by blast
  show ?case
  proof (cases "v = NONE")
    case False
    then show ?thesis using v IH by (simp add: x wins_at_def)
  next
    case True
    let ?b1 = "b[nat r := (b ! nat r)[nat c := side]]"
    note s1 = setCell_wf[OF wf ib, of side]
    obtain w where w: "checkWin ?b1 r c = Some w" using checkWin_total[OF s1(2) ib] by blast
    have undone: "setCell ?b1 r c NONE = Some b" using set_back[OF wf ib] v True by simp
    show ?thesis
      using v True s1(1) w undone IH by (cases w) (simp_all add: x wins_at_def)
  qed
qed

lemma ex_top:
  assumes "xs \<noteq> []"
  shows "\<exists>m \<in> set xs. \<forall>y \<in> set xs. (f y :: int) \<le> f m"
  using assms
proof (induction xs)
  case Nil
  then show ?case by simp
next
  case (Cons x xs)
  show ?case
  proof (cases "xs = []")
    case True
    then show ?thesis by simp
  next
    case False
    from Cons.IH[OF this] obtain m where m: "m \<in> set xs" "\<forall>y \<in> set xs. f y \<le> f m" by blast
    show ?thesis
    proof (cases "f m \<le> f x")
      case True
      then have "\<forall>y \<in> set (x # xs). f y \<le> f x" using m by force
      then show ?thesis by (intro bexI[of _ x]) simp_all
    next
      case False
      then have "\<forall>y \<in> set (x # xs). f y \<le> f m" using m by force
      then show ?thesis using m(1) by (intro bexI[of _ m]) simp_all
    qed
  qed
qed

lemma pick_find:
  "pick f bs bm xs =
     (case find (\<lambda>x. f x > bs \<and> (\<forall>y \<in> set xs. f y \<le> f x)) xs of None \<Rightarrow> bm | Some x \<Rightarrow> Some x)"
proof (induction xs arbitrary: bs bm)
  case Nil
  show ?case by simp
next
  case (Cons x xs)
  show ?case
  proof (cases "f x > bs")
    case False
    have "find (\<lambda>z. f z > bs \<and> (\<forall>y \<in> set (x # xs). f y \<le> f z)) xs
        = find (\<lambda>z. f z > bs \<and> (\<forall>y \<in> set xs. f y \<le> f z)) xs"
      using False by (intro find_cong) auto
    then show ?thesis using False Cons.IH[of bs bm] by simp
  next
    case True
    show ?thesis
    proof (cases "\<forall>y \<in> set xs. f y \<le> f x")
      case top: True
      then have "find (\<lambda>z. f z > f x \<and> (\<forall>y \<in> set xs. f y \<le> f z)) xs = None"
        by (auto simp: find_None_iff)
      then show ?thesis using True top Cons.IH[of "f x" "Some x"] by simp
    next
      case beaten: False
      then obtain y where y: "y \<in> set xs" "f x < f y" by (auto simp: not_le)
      then have ne: "xs \<noteq> []" by auto
      from ex_top[OF ne, of f] obtain m where m: "m \<in> set xs" "\<forall>y \<in> set xs. f y \<le> f m" by blast
      then have "f x < f m" using y by force
      then have "\<exists>z \<in> set xs. f z > f x \<and> (\<forall>y \<in> set xs. f y \<le> f z)" using m by blast
      then obtain z where z: "find (\<lambda>z. f z > f x \<and> (\<forall>y \<in> set xs. f y \<le> f z)) xs = Some z"
        by (cases "find (\<lambda>z. f z > f x \<and> (\<forall>y \<in> set xs. f y \<le> f z)) xs") (auto simp: find_None_iff)
      have "find (\<lambda>z. f z > bs \<and> (\<forall>y \<in> set (x # xs). f y \<le> f z)) xs
          = find (\<lambda>z. f z > f x \<and> (\<forall>y \<in> set xs. f y \<le> f z)) xs"
        using True y by (intro find_cong) force+
      then have "find (\<lambda>z. f z > bs \<and> (\<forall>y \<in> set (x # xs). f y \<le> f z)) (x # xs) = Some z"
        using beaten z by auto
      then show ?thesis using True z Cons.IH[of "f x" "Some x"] by (simp del: find.simps)
    qed
  qed
qed

lemma score_spec_nonneg:
  assumes "in_bounds r c"
  shows "0 \<le> score_spec b r c side"
proof -
  have "0 \<le> (\<Sum>(dx, dy) \<in> axes. my_bonus (both_ways b side r c dx dy)
                         + opp_bonus (both_ways b (other_side side) r c dx dy))"
    by (intro sum_nonneg) (auto simp: my_bonus_def opp_bonus_def)
  moreover have "\<bar>r - 7\<bar> \<le> 7" "\<bar>c - 7\<bar> \<le> 7"
    using assms by (auto simp: in_bounds_def)
  then have "0 \<le> (14 - \<bar>r - 7\<bar> - \<bar>c - 7\<bar>) * 10" by simp
  ultimately show ?thesis unfolding score_spec_def by linarith
qed

lemma bestCell_pick:
  assumes wf: "wf_board b"
  shows "\<forall>(r, c) \<in> set cs. in_bounds r c \<Longrightarrow>
     bestCell b bs bm cs =
       Some (pick (cell_score b) bs bm (filter (\<lambda>(r, c). cellAt b r c = Some NONE) cs))"
proof (induction cs arbitrary: bs bm)
  case Nil
  show ?case by simp
next
  case (Cons x cs)
  obtain r c where x: "x = (r, c)" by (cases x)
  have ib: "in_bounds r c" and rest: "\<forall>(r, c) \<in> set cs. in_bounds r c"
    using Cons.prems by (auto simp: x)
  note IH = Cons.IH[OF rest]
  obtain v where v: "cellAt b r c = Some v" using cellAt_wf[OF wf ib] by blast
  have ev: "evaluatePosition b r c WHITE = Some (cell_score b (r, c))"
    using evaluatePosition_score[OF wf ib, of WHITE] by (simp add: cell_score_def)
  show ?case
    using v ev IH by (simp add: x)
qed

lemma getAIMove_select:
  assumes wf: "wf_board b"
  shows "getAIMove b = Some (select_spec b, b)"
proof -
  have ib: "\<forall>(r, c) \<in> set cells. in_bounds r c" by (simp add: set_cells)
  have t3: "pick (cell_score b) (- 1) None (empty_cells b) = find (unbeaten b) (empty_cells b)"
  proof -
    have "find (\<lambda>x. cell_score b x > - 1 \<and> (\<forall>y \<in> set (empty_cells b). cell_score b y \<le> cell_score b x))
            (empty_cells b) = find (unbeaten b) (empty_cells b)"
    proof (rule find_cong[OF refl])
      fix x assume "x \<in> set (empty_cells b)"
      then have "in_bounds (fst x) (snd x)" by (auto simp: empty_cells_def set_cells)
      then have "0 \<le> cell_score b x"
        using score_spec_nonneg[of "fst x" "snd x" b WHITE] by (simp add: cell_score_def split_beta)
      then show "(cell_score b x > - 1 \<and> (\<forall>y \<in> set (empty_cells b). cell_score b y \<le> cell_score b x))
          = unbeaten b x"
        by (auto simp: unbeaten_def)
    qed
    then show ?thesis
      unfolding pick_find by (simp split: option.split)
  qed
  show ?thesis
    by (simp add: getAIMove_def findWinningCell_find[OF wf ib] bestCell_pick[OF wf ib]
        select_spec_def t3 empty_cells_def[symmetric] split: option.split)
qed

lemma isBoardFull_scan_empty:
  assumes wf: "wf_board b"
  shows "\<forall>(r, c) \<in> set cs. in_bounds r c \<Longrightarrow>
     isBoardFull_scan b cs = Some (filter (\<lambda>(r, c). cellAt b r c = Some NONE) cs = [])"
proof (induction cs)
  case Nil
  show ?case by simp
next
  case (Cons x cs)
  obtain r c where x: "x = (r, c)" by (cases x)
  have ib: "in_bounds r c" and rest: "\<forall>(r, c) \<in> set cs. in_bounds r c"
    using Cons.prems by (auto simp: x)
  obtain v where v: "cellAt b r c = Some v" using cellAt_wf[OF wf ib] by blast
  show ?case using v Cons.IH[OF rest] by (simp add: x)
qed

lemma isBoardFull_empty_cells:
  "wf_board b \<Longrightarrow> isBoardFull b = Some (empty_cells b = [])"
  unfolding isBoardFull_def empty_cells_def
  by (rule isBoardFull_scan_empty) (simp_all add: set_cells)

lemma select_spec_Some:
  assumes "select_spec b = Some (r, c)"
  shows "in_bounds r c \<and> cellAt b r c = Some NONE"
proof -
  from assms consider "find (wins_at b WHITE) cells = Some (r, c)"
    | "find (wins_at b BLACK) cells = Some (r, c)"
    | "find (unbeaten b) (empty_cells b) = Some (r, c)"
    by (auto simp: select_spec_def split: option.splits)
  then show ?thesis
  proof cases
    case 1
    then have "(r, c) \<in> set cells" "wins_at b WHITE (r, c)"
      by (auto simp: find_Some_iff)
    then show ?thesis by (auto simp: set_cells wins_at_def)
  next
    case 2
    then have "(r, c) \<in> set cells" "wins_at b BLACK (r, c)"
      by (auto simp: find_Some_iff)
    then show ?thesis by (auto simp: set_cells wins_at_def)
  next
    case 3
    then have "(r, c) \<in> set (empty_cells b)" by (auto simp: find_Some_iff)
    then show ?thesis by (auto simp: empty_cells_def set_cells)
  qed
qed

lemma select_spec_None: "select_spec b = None \<longleftrightarrow> empty_cells b = []"
proof
  assume "select_spec b = None"
  then have none: "find (unbeaten b) (empty_cells b) = None"
    by (auto simp: select_spec_def split: option.splits)
  show "empty_cells b = []"
  proof (rule ccontr)
    assume "empty_cells b \<noteq> []"
    from ex_top[OF this, of "cell_score b"] none show False
      by (auto simp: find_None_iff unbeaten_def)
  qed
next
  assume e: "empty_cells b = []"
  have "\<not> wins_at b side rc" if "rc \<in> set cells" for side rc
  proof
    assume "wins_at b side rc"
    then have "rc \<in> set (empty_cells b)" using that by (auto simp: wins_at_def empty_cells_def)
    then show False using e by simp
  qed
  then have "find (wins_at b WHITE) cells = None" "find (wins_at b BLACK) cells = None"
    by (auto simp: find_None_iff)
  then show "select_spec b = None" by (simp add: select_spec_def e)
qed

text \<open>
  Claim C5. On a 15 by 15 board \<open>getAIMove\<close> returns, and the move it returns is
  the one the three tiers choose: the first cell in row-major order where a white
  piece makes \<open>checkWin\<close> true; otherwise the first where a black piece does;
  otherwise the empty cell of greatest score, the first in row-major order among
  equals. It returns no move exactly when the board is full, and a move it
  returns is an empty cell of the board.
\<close>

theorem getAIMove_policy:
  assumes "wf_board b"
  shows "map_option fst (getAIMove b) = Some (select_spec b)
       \<and> (select_spec b = None \<longleftrightarrow> isBoardFull b = Some True)
       \<and> (\<forall>r c. select_spec b = Some (r, c) \<longrightarrow> in_bounds r c \<and> cellAt b r c = Some NONE)"
  using getAIMove_select[OF assms] isBoardFull_empty_cells[OF assms] select_spec_None[of b]
    select_spec_Some[of b]
  by simp

theorem getAIMove_policy_witness:
  "wf_board (board opening_game) \<and>
   getAIMove (board opening_game) = Some (Some (6, 7), board opening_game) \<and>
   select_spec (board opening_game) = Some (6, 7)"
proof -
  have a: "wf_board (board opening_game)" by code_simp
  have b: "getAIMove (board opening_game) = Some (Some (6, 7), board opening_game)" by code_simp
  from getAIMove_policy[OF a] have "map_option fst (getAIMove (board opening_game))
      = Some (select_spec (board opening_game))" by (rule conjunct1)
  then have "select_spec (board opening_game) = Some (6, 7)" unfolding b by simp
  with a b show ?thesis by (intro conjI)
qed

text \<open>
  Claim C10. On a 15 by 15 board \<open>getAIMove\<close> returns and the board it leaves is
  the board it was given, cell for cell; so does each of the two scans that place
  a piece, whether or not they find a winning cell. The scoring scan only reads.
\<close>

theorem getAIMove_board_unchanged:
  assumes "wf_board b"
  shows "map_option snd (getAIMove b) = Some b
       \<and> map_option snd (findWinningCell b WHITE cells) = Some b
       \<and> map_option snd (findWinningCell b BLACK cells) = Some b"
proof -
  have ib: "\<forall>(r, c) \<in> set cells. in_bounds r c" by (simp add: set_cells)
  show ?thesis
    using getAIMove_select[OF assms] findWinningCell_find[OF assms ib] by simp
qed

theorem getAIMove_board_unchanged_witness:
  "wf_board five_in_row_board \<and>
   map_option snd (getAIMove five_in_row_board) = Some five_in_row_board"
proof -
  have a: "wf_board five_in_row_board" by code_simp
  from getAIMove_board_unchanged[OF a] have
    "map_option snd (getAIMove five_in_row_board) = Some five_in_row_board" by (rule conjunct1)
  with a show ?thesis by (intro conjI)
qed

section \<open>Boards and histories\<close>

lemma wf_board_of: "wf_board (board_of h)"
  by (simp add: wf_board_def board_of_def list_all_iff)

lemma cellAt_board_of:
  assumes "in_bounds r c"
  shows "cellAt (board_of h) r c = Some (owner h (r, c))"
proof -
  have ib: "0 \<le> r" "r < 15" "0 \<le> c" "c < 15" using assms by (auto simp: in_bounds_def)
  then have n: "nat r < 15" "nat c < 15" by auto
  have v: "board_of h ! nat r ! nat c = owner h (r, c)"
    using n ib by (simp add: board_of_def)
  have l: "length (board_of h) = 15" "length (board_of h ! nat r) = 15"
    using n(1) by (simp_all add: board_of_def)
  show ?thesis unfolding cellAt_def l v using ib by simp
qed

lemma board_ext:
  assumes "wf_board a" "wf_board b"
    and "\<And>r c. in_bounds r c \<Longrightarrow> cellAt a r c = cellAt b r c"
  shows "a = b"
proof (rule nth_equalityI)
  show "length a = length b" using assms(1,2) by (simp add: wf_board_def)
next
  fix i assume i: "i < length a"
  then have i15: "i < 15" using assms(1) by (simp add: wf_board_def)
  have la: "length (a ! i) = 15" and lb: "length (b ! i) = 15"
    using assms(1,2) i15 by (auto simp: wf_board_def list_all_length)
  show "a ! i = b ! i"
  proof (rule nth_equalityI)
    show "length (a ! i) = length (b ! i)" using la lb by simp
  next
    fix j assume "j < length (a ! i)"
    then have j15: "j < 15" using la by simp
    have "in_bounds (int i) (int j)" using i15 j15 by (simp add: in_bounds_def)
    from assms(3)[OF this] show "a ! i ! j = b ! i ! j"
      using i15 j15 la lb assms(1,2) by (simp add: cellAt_def wf_board_def)
  qed
qed

lemma cellAt_update:
  assumes "wf_board b" "in_bounds r c" "in_bounds r' c'"
  shows "cellAt (b[nat r := (b ! nat r)[nat c := v]]) r' c' =
         (if (r', c') = (r, c) then Some v else cellAt b r' c')"
proof -
  have ib: "0 \<le> r" "r < 15" "0 \<le> c" "c < 15" "0 \<le> r'" "r' < 15" "0 \<le> c'" "c' < 15"
    using assms(2,3) by (auto simp: in_bounds_def)
  have l: "length b = 15" "length (b ! nat r) = 15" "length (b ! nat r') = 15"
    using assms(1) ib by (auto simp: wf_board_def list_all_length)
  have eqr: "nat r' = nat r \<longleftrightarrow> r' = r" and eqc: "nat c' = nat c \<longleftrightarrow> c' = c"
    using ib by auto
  show ?thesis
  proof (cases "r' = r")
    case True
    then show ?thesis
      using ib l eqc by (auto simp: cellAt_def nth_list_update)
  next
    case False
    then have "nat r \<noteq> nat r'" using eqr by simp
    then show ?thesis
      using False ib l by (simp add: cellAt_def)
  qed
qed

lemma find_snoc:
  "find P (xs @ [y]) = (case find P xs of None \<Rightarrow> (if P y then Some y else None) | Some x \<Rightarrow> Some x)"
  by (induction xs) auto

lemma owner_snoc:
  "owner (h @ [m]) rc =
     (if rc \<in> cell_of ` set h then owner h rc else if cell_of m = rc then player m else NONE)"
proof (cases "find (\<lambda>m. cell_of m = rc) h")
  case None
  then have "rc \<notin> cell_of ` set h" by (auto simp: find_None_iff)
  then show ?thesis using None by (simp add: owner_def find_snoc)
next
  case (Some x)
  then have "rc \<in> cell_of ` set h" by (auto simp: find_Some_iff)
  then show ?thesis using Some by (simp add: owner_def find_snoc)
qed

lemma owner_absent: "rc \<notin> cell_of ` set h \<Longrightarrow> owner h rc = NONE"
  by (cases "find (\<lambda>m. cell_of m = rc) h") (auto simp: owner_def find_Some_iff)

lemma place_board_of:
  assumes "in_bounds (row m) (col m)" "cell_of m \<notin> cell_of ` set h"
  shows "setCell (board_of h) (row m) (col m) (player m) = Some (board_of (h @ [m]))"
proof -
  let ?b = "board_of h" and ?r = "row m" and ?c = "col m"
  let ?b' = "?b[nat ?r := (?b ! nat ?r)[nat ?c := player m]]"
  note s = setCell_wf[OF wf_board_of assms(1), of h "player m"]
  have "?b' = board_of (h @ [m])"
  proof (rule board_ext[OF s(2) wf_board_of])
    fix r c assume ib: "in_bounds r c"
    show "cellAt ?b' r c = cellAt (board_of (h @ [m])) r c"
      unfolding cellAt_update[OF wf_board_of assms(1) ib] cellAt_board_of[OF ib] owner_snoc
      using assms(2) owner_absent[of "(r, c)" h]
      by (auto simp: cell_of_def)
  qed
  with s(1) show ?thesis by simp
qed

lemma clear_board_of:
  assumes "in_bounds (row m) (col m)" "cell_of m \<notin> cell_of ` set h"
  shows "setCell (board_of (h @ [m])) (row m) (col m) NONE = Some (board_of h)"
proof -
  have e: "cellAt (board_of h) (row m) (col m) = Some NONE"
    using cellAt_board_of[OF assms(1), of h] owner_absent[OF assms(2)] by (simp add: cell_of_def)
  have "board_of (h @ [m]) =
      (board_of h)[nat (row m) := (board_of h ! nat (row m))[nat (col m) := player m]]"
    using place_board_of[OF assms] setCell_wf(1)[OF wf_board_of assms(1), of h "player m"] by simp
  then show ?thesis using set_back[OF wf_board_of assms(1) e] by simp
qed

lemma distinct_cells: "distinct cells"
  by code_simp

lemma concat_board_of: "concat (board_of h) = map (owner h) cells"
  by (simp add: board_of_def cells_def map_concat comp_def)

lemma ledger_ok_facts:
  "ledger_ok ms \<Longrightarrow> distinct (map cell_of ms) \<and>
     (\<forall>m \<in> set ms. in_bounds (row m) (col m) \<and> player m \<noteq> NONE)"
  by (induction ms) (auto simp: side_at_def)

lemma owner_present:
  assumes "\<forall>m \<in> set h. player m \<noteq> NONE" "rc \<in> cell_of ` set h"
  shows "owner h rc \<noteq> NONE"
proof -
  from assms(2) have "find (\<lambda>m. cell_of m = rc) h \<noteq> None" by (auto simp: find_None_iff)
  then obtain m where m: "find (\<lambda>m. cell_of m = rc) h = Some m" by auto
  then have "m \<in> set h" by (auto simp: find_Some_iff)
  then show ?thesis using assms(1) m by (simp add: owner_def)
qed

lemma stones_board_of:
  assumes "distinct (map cell_of h)"
    and "\<forall>m \<in> set h. in_bounds (row m) (col m) \<and> player m \<noteq> NONE"
  shows "stones (board_of h) = length h"
proof -
  have "stones (board_of h) = length (filter (\<lambda>rc. owner h rc \<noteq> NONE) cells)"
    by (simp add: stones_def concat_board_of filter_map comp_def)
  also have "\<dots> = card ({rc. owner h rc \<noteq> NONE} \<inter> set cells)"
    by (rule distinct_length_filter[OF distinct_cells])
  also have "{rc. owner h rc \<noteq> NONE} \<inter> set cells = cell_of ` set h"
  proof (intro equalityI subsetI)
    fix rc assume "rc \<in> {rc. owner h rc \<noteq> NONE} \<inter> set cells"
    then show "rc \<in> cell_of ` set h" using owner_absent[of rc h] by auto
  next
    fix rc assume rc: "rc \<in> cell_of ` set h"
    then have "owner h rc \<noteq> NONE" using owner_present[of h rc] assms(2) by blast
    moreover have "rc \<in> set cells" using rc assms(2) by (auto simp: set_cells cell_of_def)
    ultimately show "rc \<in> {rc. owner h rc \<noteq> NONE} \<inter> set cells" by simp
  qed
  also have "card (cell_of ` set h) = length h"
    using distinct_card[OF assms(1)] by simp
  finally show ?thesis .
qed

lemma board_of_Nil: "board_of [] = createEmptyBoard"
  by (simp add: board_of_def createEmptyBoard_def owner_def map_replicate_const)

lemma isBoardFull_total: "wf_board b \<Longrightarrow> \<exists>f. isBoardFull b = Some f"
  by (simp add: isBoardFull_empty_cells)

lemma placePiece_result:
  assumes "setCell (board g) r c (currentPlayer g) = Some b'" "checkWin b' r c = Some w"
    "isBoardFull b' = Some f" "\<not> gameOver g"
  shows "\<exists>g'. placePiece J now r c g = Some g' \<and> board g' = b'
     \<and> moveHistory g' = moveHistory g @ [\<lparr> row = r, col = c, player = currentPlayer g,
           timestamp = now, moveNumber = moveCount g + 1 \<rparr>]
     \<and> moveCount g' = moveCount g + 1 \<and> gameMode g' = gameMode g
     \<and> gameOver g' = (w \<or> f)
     \<and> currentPlayer g' = (if w \<or> f then currentPlayer g
                            else if currentPlayer g = BLACK then WHITE else BLACK)"
  using assms
  by (simp add: placePiece_def saveGame_def endGame_def switchPlayer_def Let_def)

section \<open>The invariant is kept\<close>

lemma side_at_Suc: "side_at (Suc n) = (if side_at n = BLACK then WHITE else BLACK)"
  by (simp add: side_at_def)

lemma inv_initial: "inv initial"
  by (simp add: inv_def core_def initial_def board_of_Nil side_at_def)

lemma inv_reset: "inv (reset g)"
  by (simp add: inv_def core_def reset_def board_of_Nil side_at_def)

lemma inv_toggleMode: "inv (toggleMode g)"
  unfolding toggleMode_def by (rule inv_reset)

lemma empty_cell_not_played:
  assumes "ledger_ok (rev h)" "in_bounds r c" "cellAt (board_of h) r c = Some NONE"
  shows "(r, c) \<notin> cell_of ` set h"
proof
  assume "(r, c) \<in> cell_of ` set h"
  moreover have "\<forall>m \<in> set h. player m \<noteq> NONE" using ledger_ok_facts[OF assms(1)] by simp
  ultimately have "owner h (r, c) \<noteq> NONE" using owner_present by blast
  then show False using assms(3) cellAt_board_of[OF assms(2), of h] by simp
qed

text \<open>\<open>placePiece\<close> on an empty cell of the board keeps the invariant.\<close>

lemma placePiece_inv:
  assumes "inv g" "\<not> gameOver g" "in_bounds r c" "cellAt (board g) r c = Some NONE"
  shows "\<exists>g'. placePiece J now r c g = Some g' \<and> inv g'"
proof -
  let ?h = "moveHistory g"
  let ?m = "\<lparr> row = r, col = c, player = currentPlayer g, timestamp = now,
              moveNumber = moveCount g + 1 \<rparr>"
  from assms(1,2) have bd: "board g = board_of ?h" and ok: "ledger_ok (rev ?h)"
    and mc: "moveCount g = int (length ?h)" and cp: "currentPlayer g = side_at (length ?h)"
    and q: "?h \<noteq> [] \<longrightarrow> quiet ?h"
    by (simp_all add: inv_def core_def)
  have fresh: "cell_of ?m \<notin> cell_of ` set ?h"
    using empty_cell_not_played[OF ok assms(3)] assms(4) bd by (simp add: cell_of_def)
  have ibm: "in_bounds (row ?m) (col ?m)" using assms(3) by simp
  have sc: "setCell (board g) r c (currentPlayer g) = Some (board_of (?h @ [?m]))"
    using place_board_of[OF ibm fresh] bd by simp
  obtain w where w: "checkWin (board_of (?h @ [?m])) r c = Some w"
    using checkWin_total[OF wf_board_of assms(3)] by blast
  obtain f where f: "isBoardFull (board_of (?h @ [?m])) = Some f"
    using isBoardFull_total[OF wf_board_of] by blast
  from placePiece_result[OF sc w f assms(2), of J now]
  obtain g' where g': "placePiece J now r c g = Some g'" "board g' = board_of (?h @ [?m])"
    "moveHistory g' = ?h @ [?m]" "moveCount g' = moveCount g + 1"
    "gameOver g' = (w \<or> f)"
    "currentPlayer g' = (if w \<or> f then currentPlayer g
                          else if currentPlayer g = BLACK then WHITE else BLACK)"
    by blast
  have ok': "ledger_ok (rev (?h @ [?m]))"
    using ok fresh assms(3) cp mc q by simp
  have "inv g'"
    unfolding inv_def core_def g'
    using ok' mc cp w f by (auto simp: quiet_def side_at_Suc)
  with g'(1) show ?thesis by blast
qed

lemma handleClick_inv:
  assumes "inv g" "handleClick J now r c g = Some g'"
  shows "inv g'"
proof -
  have wf: "wf_board (board g)" using assms(1) by (simp add: inv_def core_def wf_board_of)
  show ?thesis
  proof (cases "gameOver g \<or> (gameMode g = PVE \<and> currentPlayer g = WHITE) \<or> \<not> in_bounds r c")
    case True
    then have "handleClick J now r c g = Some g" by (auto simp: handleClick_def in_bounds_def)
    then show ?thesis using assms by simp
  next
    case False
    then have ib: "in_bounds r c" and no: "\<not> gameOver g" by auto
    obtain v where v: "cellAt (board g) r c = Some v" using cellAt_wf[OF wf ib] by blast
    show ?thesis
    proof (cases "v = NONE")
      case True
      then have "handleClick J now r c g = placePiece J now r c g"
        using False v by (auto simp: handleClick_def in_bounds_def)
      then show ?thesis using placePiece_inv[OF assms(1) no ib, of J now] v True assms(2) by auto
    next
      case False
      then have "handleClick J now r c g = Some g"
        using v by (auto simp: handleClick_def)
      then show ?thesis using assms by simp
    qed
  qed
qed

lemma inv_pendingAI: "inv (g\<lparr>pendingAI := n\<rparr>) = inv g"
  by (simp add: inv_def core_def)

lemma aiMove_inv:
  assumes "inv g" "aiMove J now g = Some g'"
  shows "inv g'"
proof (cases "gameOver g")
  case True
  then show ?thesis using assms by (simp add: aiMove_def)
next
  case False
  have bd: "board g = board_of (moveHistory g)" using assms(1) by (simp add: inv_def core_def)
  have wf: "wf_board (board g)" using bd by (simp add: wf_board_of)
  note sel = getAIMove_select[OF wf]
  show ?thesis
  proof (cases "select_spec (board g)")
    case None
    then have "g' = g" using assms(2) False sel by (simp add: aiMove_def)
    then show ?thesis using assms(1) by simp
  next
    case (Some rc)
    obtain r c where rc: "rc = (r, c)" by (cases rc)
    from select_spec_Some[of "board g" r c] Some rc
    have ib: "in_bounds r c" and e: "cellAt (board g) r c = Some NONE" by auto
    have "aiMove J now g = placePiece J now r c g"
      using False sel Some rc by (simp add: aiMove_def)
    then show ?thesis using placePiece_inv[OF assms(1) False ib e, of J now] assms(2) by auto
  qed
qed

lemma pop_core:
  assumes "core g" "moveHistory g \<noteq> []"
  shows "undo_loop (Suc n) g = undo_loop n (popped g)"
    and "core (popped g)"
    and "moveHistory (popped g) \<noteq> [] \<longrightarrow> quiet (moveHistory (popped g))"
proof -
  let ?h = "moveHistory g"
  let ?m = "last ?h" and ?h' = "butlast ?h"
  have h: "?h = ?h' @ [?m]" using assms(2) by simp
  from assms(1) have bd: "board g = board_of ?h" and ok: "ledger_ok (rev ?h)"
    and mc: "moveCount g = int (length ?h)" by (simp_all add: core_def)
  from ok have ok_split: "ledger_ok (?m # rev ?h')" by (subst (asm) h) simp
  then have ok': "ledger_ok (rev ?h')" and ib: "in_bounds (row ?m) (col ?m)"
    and fresh: "cell_of ?m \<notin> cell_of ` set ?h'" and q: "?h' \<noteq> [] \<longrightarrow> quiet ?h'"
    by simp_all
  have "setCell (board_of ?h) (row ?m) (col ?m) NONE = Some (board_of ?h')"
    using clear_board_of[OF ib fresh] h by simp
  then show "undo_loop (Suc n) g = undo_loop n (popped g)"
    using assms(2) bd by (simp add: popped_def Let_def)
  have "int (length ?h - 1) = int (length ?h) - 1"
    using assms(2) by (cases ?h) simp_all
  then show "core (popped g)"
    using ok' mc by (simp add: core_def popped_def)
  show "moveHistory (popped g) \<noteq> [] \<longrightarrow> quiet (moveHistory (popped g))"
    using q by (simp add: popped_def)
qed

lemma undo_result:
  assumes "inv g" "\<not> gameOver g" "moveHistory g \<noteq> []"
  shows "\<exists>g'. undo J g = Some g' \<and> inv g' \<and> \<not> gameOver g' \<and> gameMode g' = gameMode g
     \<and> moveHistory g' =
        (if gameMode g = PVE \<and> length (moveHistory g) \<ge> 2
         then butlast (butlast (moveHistory g)) else butlast (moveHistory g))"
proof -
  let ?h = "moveHistory g"
  have c: "core g" using assms(1) by (simp add: inv_def)
  note p1 = pop_core[OF c assms(3)]
  define g1 where "g1 = (if gameMode g = PVE \<and> length ?h \<ge> 2 then popped (popped g) else popped g)"
  have "undo_loop (if gameMode g = PVE \<and> length ?h \<ge> 2 then 2 else 1) g = Some g1
      \<and> core g1 \<and> (moveHistory g1 \<noteq> [] \<longrightarrow> quiet (moveHistory g1))"
  proof (cases "gameMode g = PVE \<and> length ?h \<ge> 2")
    case True
    then have ne: "moveHistory (popped g) \<noteq> []"
      by (cases ?h rule: rev_cases) (auto simp: popped_def)
    have e2: "undo_loop (Suc (Suc 0)) g = Some (popped (popped g))"
      by (subst p1(1), subst pop_core(1)[OF p1(2) ne]) simp
    have g1: "g1 = popped (popped g)" using True by (simp add: g1_def)
    have steps: "(if gameMode g = PVE \<and> length ?h \<ge> 2 then 2 else 1) = Suc (Suc 0)"
      using True by simp
    show ?thesis unfolding g1 steps using e2 pop_core(2,3)[OF p1(2) ne] by blast
  next
    case False
    have e1: "undo_loop (Suc 0) g = Some (popped g)"
      by (subst p1(1)) simp
    have g1: "g1 = popped g" using False by (auto simp: g1_def)
    have steps: "(if gameMode g = PVE \<and> length ?h \<ge> 2 then 2 else 1) = Suc 0"
      using False by auto
    show ?thesis unfolding g1 steps using e1 p1(2,3) by blast
  qed
  then have loop: "undo_loop (if gameMode g = PVE \<and> length ?h \<ge> 2 then 2 else 1) g = Some g1"
    and c1: "core g1" and q1: "moveHistory g1 \<noteq> [] \<longrightarrow> quiet (moveHistory g1)"
    by blast+
  have keep: "gameOver g1 = gameOver g" "gameMode g1 = gameMode g"
    "moveHistory g1 = (if gameMode g = PVE \<and> length ?h \<ge> 2 then butlast (butlast ?h) else butlast ?h)"
    by (simp_all add: g1_def popped_def)
  define g2 where "g2 =
     (if moveHistory g1 \<noteq> []
      then g1\<lparr>currentPlayer := (if player (last (moveHistory g1)) = BLACK then WHITE else BLACK)\<rparr>
      else g1\<lparr>currentPlayer := BLACK\<rparr>)"
  have u: "undo J g = Some (saveGame J g2)"
    using assms(2,3) loop by (simp add: undo_def g2_def Let_def)
  have last_side: "player (last (moveHistory g1)) = side_at (length (moveHistory g1) - 1)"
    if "moveHistory g1 \<noteq> []"
  proof -
    have eq: "rev (moveHistory g1) = last (moveHistory g1) # rev (butlast (moveHistory g1))"
      using that by (cases "moveHistory g1" rule: rev_cases) simp_all
    have "ledger_ok (rev (moveHistory g1))" using c1 by (simp add: core_def)
    then have "ledger_ok (last (moveHistory g1) # rev (butlast (moveHistory g1)))"
      unfolding eq .
    then show ?thesis by simp
  qed
  have cp2: "currentPlayer g2 = side_at (length (moveHistory g2))"
  proof (cases "moveHistory g1 = []")
    case True
    then show ?thesis by (simp add: g2_def side_at_def)
  next
    case False
    then obtain n where n: "length (moveHistory g1) = Suc n" by (cases "moveHistory g1") auto
    show ?thesis using False last_side[OF False] n by (simp add: g2_def side_at_Suc)
  qed
  have same2: "moveHistory g2 = moveHistory g1" "board g2 = board g1" "moveCount g2 = moveCount g1"
    "gameOver g2 = gameOver g1" "gameMode g2 = gameMode g1"
    by (simp_all add: g2_def)
  have "inv (saveGame J g2)"
    using c1 q1 cp2 same2 keep assms(2) by (simp add: inv_def core_def saveGame_def)
  moreover have "\<not> gameOver (saveGame J g2)" "gameMode (saveGame J g2) = gameMode g"
    "moveHistory (saveGame J g2) = moveHistory g1"
    using same2 keep assms(2) by (simp_all add: saveGame_def)
  ultimately show ?thesis using u keep(3) by simp
qed

lemma undo_inv:
  assumes "inv g" "undo J g = Some g'"
  shows "inv g'"
proof (cases "gameOver g \<or> moveHistory g = []")
  case True
  then have "undo J g = Some g" by (auto simp: undo_def)
  then show ?thesis using assms by simp
next
  case False
  then show ?thesis using undo_result[OF assms(1), of J] assms(2) by auto
qed

lemma reachable_inv: "reachable J g \<Longrightarrow> inv g"
proof (induction rule: reachable.induct)
  case start
  show ?case by (rule inv_initial)
next
  case (click g now r c g')
  then show ?case using handleClick_inv by blast
next
  case (timer g now g')
  then show ?case using aiMove_inv[of "g\<lparr>pendingAI := pendingAI g - 1\<rparr>" J now g']
    by (simp add: inv_pendingAI)
next
  case (undone g g')
  then show ?case using undo_inv by blast
next
  case (reset g)
  show ?case by (rule inv_reset)
next
  case (toggled g)
  show ?case by (rule inv_toggleMode)
qed

text \<open>
  Claim C7. In every state reached from the fresh game by clicks, the computer's
  moves, undos, resets and mode changes, the length of the move history equals
  the number of non-empty cells of the board.
\<close>

theorem ledger_length_is_stone_count:
  assumes "reachable J g"
  shows "length (moveHistory g) = stones (board g)"
proof -
  from reachable_inv[OF assms] have bd: "board g = board_of (moveHistory g)"
    and ok: "ledger_ok (rev (moveHistory g))" by (simp_all add: inv_def core_def)
  from ledger_ok_facts[OF ok] have "distinct (map cell_of (moveHistory g))"
    "\<forall>m \<in> set (moveHistory g). in_bounds (row m) (col m) \<and> player m \<noteq> NONE"
    by (simp_all add: rev_map[symmetric])
  from stones_board_of[OF this] bd show ?thesis by simp
qed

theorem ledger_length_is_stone_count_witness:
  "reachable demo_stringify finished_game \<and> length (moveHistory finished_game) = 9 \<and>
   stones (board finished_game) = 9"
proof -
  have a: "length (moveHistory finished_game) = 9" by (simp add: finished_game_def)
  from ledger_length_is_stone_count[OF reachable_finished_game] a
  have "stones (board finished_game) = 9" by simp
  with reachable_finished_game a show ?thesis by (intro conjI)
qed

text \<open>
  Claim C3, as the code has it. Take a state in which the game is in progress,
  board and history agree on the last move, \<open>undo\<close> takes back one move
  (two-player mode, or a history of one move), and the last move was made by the
  side to which \<open>undo\<close> gives the turn. After \<open>undo\<close> and a click on the cell of the
  move taken back, the board, the move count and the history are as before,
  except that the new last entry carries the clock value of the click as its
  timestamp: the history is the prior one exactly when that clock value equals
  the old timestamp. The side to move is then the opponent of the mover.
\<close>

theorem undo_then_same_move:
  assumes "\<not> gameOver g" "last_move_stands g"
    and "gameMode g = PVP \<or> length (moveHistory g) = 1"
    and "player (last (moveHistory g)) = turn_after_undo (butlast (moveHistory g))"
  shows "\<exists>g1 g2. undo J g = Some g1
     \<and> handleClick J now (row (last (moveHistory g))) (col (last (moveHistory g))) g1 = Some g2
     \<and> board g2 = board g
     \<and> moveHistory g2 = butlast (moveHistory g) @ [(last (moveHistory g))\<lparr>timestamp := now\<rparr>]
     \<and> moveCount g2 = moveCount g \<and> gameOver g2 = gameOver g \<and> gameMode g2 = gameMode g
     \<and> currentPlayer g2 = (if player (last (moveHistory g)) = BLACK then WHITE else BLACK)
     \<and> (moveHistory g2 = moveHistory g \<longleftrightarrow> now = timestamp (last (moveHistory g)))"
proof -
  let ?h = "moveHistory g"
  let ?m = "last ?h" and ?h' = "butlast ?h"
  let ?r = "row ?m" and ?c = "col ?m"
  from assms(2) have wf: "wf_board (board g)" and ne: "?h \<noteq> []"
    and ib: "in_bounds ?r ?c" and here: "cellAt (board g) ?r ?c = Some (player ?m)"
    and mn: "moveNumber ?m = moveCount g"
    and w: "checkWin (board g) ?r ?c = Some False" and f: "isBoardFull (board g) = Some False"
    by (simp_all add: last_move_stands_def Let_def)
  have h: "?h = ?h' @ [?m]" using ne by simp
  let ?b1 = "(board g)[nat ?r := (board g ! nat ?r)[nat ?c := NONE]]"
  note s1 = setCell_wf[OF wf ib, of NONE]
  define g1 where "g1 = saveGame J (g\<lparr>moveHistory := ?h', board := ?b1,
      moveCount := moveCount g - 1, currentPlayer := turn_after_undo ?h'\<rparr>)"
  have steps: "(if gameMode g = PVE \<and> length ?h \<ge> 2 then 2 else 1) = Suc 0"
    using assms(3) by (cases "gameMode g") auto
  have loop: "undo_loop (Suc 0) g = Some (g\<lparr>moveHistory := ?h', board := ?b1,
      moveCount := moveCount g - 1\<rparr>)"
    using ne s1(1) by (simp add: Let_def)
  have u: "undo J g = Some g1"
    unfolding undo_def Let_def steps loop
    using assms(1) ne by (simp add: g1_def turn_after_undo_def)
  have g1: "\<not> gameOver g1" "gameMode g1 = gameMode g" "moveHistory g1 = ?h'" "board g1 = ?b1"
    "moveCount g1 = moveCount g - 1" "currentPlayer g1 = player ?m"
    using assms(1,4) by (simp_all add: g1_def saveGame_def)
  have turn: "\<not> (gameMode g1 = PVE \<and> currentPlayer g1 = WHITE)"
  proof (cases "gameMode g")
    case PVP
    then show ?thesis using g1(2) by simp
  next
    case PVE
    then have "length ?h = 1" using assms(3) by simp
    then have "?h' = []" by (cases ?h) auto
    then show ?thesis using g1(6) assms(4) by (simp add: turn_after_undo_def)
  qed
  have e: "cellAt (board g1) ?r ?c = Some NONE"
    unfolding g1(4) by (rule cellAt_setCell_same[OF wf ib])
  have hc: "handleClick J now ?r ?c g1 = placePiece J now ?r ?c g1"
    using g1(1) turn ib e by (auto simp: handleClick_def in_bounds_def)
  have sc: "setCell (board g1) ?r ?c (currentPlayer g1) = Some (board g)"
    unfolding g1(4,6) by (rule set_back[OF wf ib here])
  from placePiece_result[OF sc w f g1(1), of J now]
  obtain g2 where g2: "placePiece J now ?r ?c g1 = Some g2" "board g2 = board g"
    "moveHistory g2 = moveHistory g1 @ [\<lparr> row = ?r, col = ?c, player = currentPlayer g1,
           timestamp = now, moveNumber = moveCount g1 + 1 \<rparr>]"
    "moveCount g2 = moveCount g1 + 1" "gameMode g2 = gameMode g1" "gameOver g2 = False"
    "currentPlayer g2 = (if currentPlayer g1 = BLACK then WHITE else BLACK)"
    by auto
  have mrec: "\<lparr> row = ?r, col = ?c, player = currentPlayer g1,
           timestamp = now, moveNumber = moveCount g1 + 1 \<rparr> = ?m\<lparr>timestamp := now\<rparr>"
    using g1(5,6) mn by simp
  have hist: "moveHistory g2 = ?h' @ [?m\<lparr>timestamp := now\<rparr>]"
    unfolding g2(3) g1(3) mrec ..
  have mc2: "moveCount g2 = moveCount g" unfolding g2(4) g1(5) by simp
  have cp2: "currentPlayer g2 = (if player ?m = BLACK then WHITE else BLACK)"
    unfolding g2(7) g1(6) ..
  have same: "moveHistory g2 = ?h \<longleftrightarrow> now = timestamp ?m"
  proof -
    have "moveHistory g2 = ?h \<longleftrightarrow> ?h' @ [?m\<lparr>timestamp := now\<rparr>] = ?h' @ [?m]"
      using hist h by simp
    also have "\<dots> \<longleftrightarrow> ?m\<lparr>timestamp := now\<rparr> = ?m" by simp
    also have "\<dots> \<longleftrightarrow> now = timestamp ?m"
    proof
      assume "?m\<lparr>timestamp := now\<rparr> = ?m"
      then have "timestamp (?m\<lparr>timestamp := now\<rparr>) = timestamp ?m" by (rule arg_cong)
      then show "now = timestamp ?m" by simp
    next
      assume "now = timestamp ?m"
      then show "?m\<lparr>timestamp := now\<rparr> = ?m" by simp
    qed
    finally show ?thesis .
  qed
  show ?thesis
    using u hc g2(1,2) hist mc2 assms(1) g2(6) g2(5) g1(2) cp2 same
    by (intro exI[of _ g1] exI[of _ g2]) simp
qed

text \<open>In a session that is never reloaded the conditions hold whenever the game is in progress.\<close>

lemma Suc_length_butlast: "xs \<noteq> [] \<Longrightarrow> Suc (length (butlast xs)) = length xs"
  by (cases xs rule: rev_cases) simp_all

lemma reachable_last_move_stands:
  assumes "reachable J g" "\<not> gameOver g" "moveHistory g \<noteq> []"
  shows "last_move_stands g"
    and "player (last (moveHistory g)) = turn_after_undo (butlast (moveHistory g))"
    and "currentPlayer g = (if player (last (moveHistory g)) = BLACK then WHITE else BLACK)"
proof -
  let ?h = "moveHistory g"
  let ?m = "last ?h" and ?h' = "butlast ?h"
  have h: "?h = ?h' @ [?m]" using assms(3) by simp
  have i: "inv g" using assms(1) by (rule reachable_inv)
  from i assms(2,3) have bd: "board g = board_of ?h" and ok: "ledger_ok (rev ?h)"
    and mc: "moveCount g = int (length ?h)" and cp: "currentPlayer g = side_at (length ?h)"
    and q: "quiet ?h"
    by (simp_all add: inv_def core_def)
  from ok have okm: "ledger_ok (?m # rev ?h')" by (subst (asm) h) simp
  then have ib: "in_bounds (row ?m) (col ?m)" and fresh: "cell_of ?m \<notin> cell_of ` set ?h'"
    and pm: "player ?m = side_at (length ?h')" and mn: "moveNumber ?m = int (length ?h') + 1"
    and ok': "ledger_ok (rev ?h')"
    by simp_all
  have il: "int (length ?h) = int (length ?h') + 1"
    using assms(3) by (cases ?h rule: rev_cases) simp_all
  have "owner ?h (row ?m, col ?m) = player ?m"
    using owner_snoc[of ?h' ?m "(row ?m, col ?m)"] fresh h by (simp add: cell_of_def)
  then have here: "cellAt (board g) (row ?m) (col ?m) = Some (player ?m)"
    using cellAt_board_of[OF ib, of ?h] bd by simp
  have mn': "moveNumber ?m = moveCount g" unfolding mn mc il ..
  have wf: "wf_board (board g)" unfolding bd by (rule wf_board_of)
  have w: "checkWin (board g) (row ?m) (col ?m) = Some False"
    and f: "isBoardFull (board g) = Some False"
    using q unfolding bd by (simp_all add: quiet_def)
  show "last_move_stands g"
    unfolding last_move_stands_def Let_def
    by (intro conjI) (rule wf, rule assms(3), rule ib, rule here, rule mn', rule w, rule f)
  show t: "player ?m = turn_after_undo ?h'"
  proof (cases "?h' = []")
    case True
    then show ?thesis using pm by (simp add: turn_after_undo_def side_at_def)
  next
    case False
    have eq: "rev ?h' = last ?h' # rev (butlast ?h')"
      using False by (cases ?h' rule: rev_cases) simp_all
    have "ledger_ok (last ?h' # rev (butlast ?h'))" using ok' unfolding eq .
    then have pl: "player (last ?h') = side_at (length (butlast ?h'))" by simp
    have sl': "side_at (length ?h') = side_at (Suc (length (butlast ?h')))"
      by (simp only: Suc_length_butlast[OF False])
    show ?thesis
      unfolding turn_after_undo_def pm pl sl' side_at_Suc using False by simp
  qed
  have sl: "side_at (length ?h) = side_at (Suc (length ?h'))" using assms(3) by simp
  show "currentPlayer g = (if player ?m = BLACK then WHITE else BLACK)"
    unfolding cp sl side_at_Suc pm ..
qed

text \<open>
  Undo in the opening game, then the same click one second later: the entry of
  the history has the timestamp 2000, not 1000.
\<close>

lemma opening_round_trip:
  "(undo demo_stringify opening_game \<bind> handleClick demo_stringify 2000 7 7) = Some opening_replayed"
  by code_simp

theorem undo_then_same_move_counterexample:
  "reachable demo_stringify opening_game \<and> \<not> gameOver opening_game \<and>
   last (moveHistory opening_game) = \<lparr> row = 7, col = 7, player = BLACK, timestamp = 1000, moveNumber = 1 \<rparr> \<and>
   (undo demo_stringify opening_game \<bind> handleClick demo_stringify 2000 7 7) = Some opening_replayed \<and>
   moveHistory opening_replayed \<noteq> moveHistory opening_game"
  using reachable_opening_game opening_round_trip
  by (simp add: opening_game_def opening_replayed_def)

theorem undo_then_same_move_witness:
  "\<not> gameOver opening_game \<and> last_move_stands opening_game \<and> gameMode opening_game = PVP \<and>
   player (last (moveHistory opening_game)) = turn_after_undo (butlast (moveHistory opening_game)) \<and>
   (\<exists>g1 g2. undo demo_stringify opening_game = Some g1 \<and>
      handleClick demo_stringify 1000 7 7 g1 = Some g2 \<and> board g2 = board opening_game \<and>
      moveHistory g2 = moveHistory opening_game)"
proof -
  have a: "\<not> gameOver opening_game" by (simp add: opening_game_def)
  have b: "last_move_stands opening_game" by code_simp
  have c: "gameMode opening_game = PVP \<or> length (moveHistory opening_game) = 1"
    by (simp add: opening_game_def)
  have d: "player (last (moveHistory opening_game)) = turn_after_undo (butlast (moveHistory opening_game))"
    by (simp add: opening_game_def turn_after_undo_def)
  have l: "row (last (moveHistory opening_game)) = 7" "col (last (moveHistory opening_game)) = 7"
    "timestamp (last (moveHistory opening_game)) = 1000"
    by (simp_all add: opening_game_def)
  have p: "gameMode opening_game = PVP" by (simp add: opening_game_def)
  from undo_then_same_move[OF a b c d, of demo_stringify 1000]
  obtain g1 g2 where "undo demo_stringify opening_game = Some g1"
    "handleClick demo_stringify 1000 7 7 g1 = Some g2" "board g2 = board opening_game"
    "moveHistory g2 = moveHistory opening_game"
    unfolding l by blast
  then have "\<exists>g1 g2. undo demo_stringify opening_game = Some g1 \<and>
      handleClick demo_stringify 1000 7 7 g1 = Some g2 \<and> board g2 = board opening_game \<and>
      moveHistory g2 = moveHistory opening_game" by blast
  with a b p d show ?thesis by (intro conjI)
qed

text \<open>
  Against the computer \<open>undo\<close> takes back two moves at once: after the
  computer's first reply it empties the history, which one click cannot fill
  again.
\<close>

lemma pve_opening_played:
  "handleClick demo_stringify 1 7 7 (toggleMode initial) = Some pve_opening"
  by code_simp

lemma pve_game_played:
  "aiMove demo_stringify 2 (pve_opening\<lparr>pendingAI := pendingAI pve_opening - 1\<rparr>) = Some pve_game"
  by code_simp

lemma reachable_pve_game: "reachable demo_stringify pve_game"
proof -
  have "reachable demo_stringify (toggleMode initial)"
    by (rule reachable.toggled[OF reachable.start])
  then have r: "reachable demo_stringify pve_opening"
    using pve_opening_played by (rule reachable.click)
  have "pendingAI pve_opening > 0" by (simp add: pve_opening_def)
  with r show ?thesis using pve_game_played by (rule reachable.timer)
qed

lemma undo_pve_game_takes_two:
  "reachable demo_stringify pve_game \<and> \<not> gameOver pve_game \<and>
   length (moveHistory pve_game) = 2 \<and>
   map_option moveHistory (undo demo_stringify pve_game) = Some []"
proof -
  have "map_option moveHistory (undo demo_stringify pve_game) = Some []" by code_simp
  moreover have "\<not> gameOver pve_game" "length (moveHistory pve_game) = 2"
    by (simp_all add: pve_game_def)
  ultimately show ?thesis using reachable_pve_game by (intro conjI)
qed

text \<open>
  After a reload the last condition can fail. In the game loaded from the
  snapshot of the first click Black is to move again; after his click on the
  corner the history holds two black moves, \<open>undo\<close> gives the turn to White, and
  the same click puts a white stone where the black one stood.
\<close>

lemma resubmit_after_reload:
  "handleClick demo_stringify 3000 0 0 stale_game = Some twice_black_game \<and>
   \<not> gameOver twice_black_game \<and> last_move_stands twice_black_game \<and>
   player (last (moveHistory twice_black_game)) = BLACK \<and>
   turn_after_undo (butlast (moveHistory twice_black_game)) = WHITE \<and>
   cellAt (board twice_black_game) 0 0 = Some BLACK \<and>
   map_option (\<lambda>g. cellAt (board g) 0 0)
     (undo demo_stringify twice_black_game \<bind> handleClick demo_stringify 4000 0 0)
     = Some (Some WHITE)"
proof -
  have a: "handleClick demo_stringify 3000 0 0 stale_game = Some twice_black_game" by code_simp
  have b: "last_move_stands twice_black_game" by code_simp
  have c: "\<not> gameOver twice_black_game" "player (last (moveHistory twice_black_game)) = BLACK"
    "turn_after_undo (butlast (moveHistory twice_black_game)) = WHITE"
    by (simp_all add: twice_black_game_def turn_after_undo_def)
  have d: "cellAt (board twice_black_game) 0 0 = Some BLACK" by code_simp
  have e: "map_option (\<lambda>g. cellAt (board g) 0 0)
     (undo demo_stringify twice_black_game \<bind> handleClick demo_stringify 4000 0 0)
     = Some (Some WHITE)" by code_simp
  show ?thesis by (intro conjI) (rule a, rule c(1), rule b, rule c(2), rule c(3), rule d, rule e)
qed

end
